theory Spec2Isabelle
  imports Complex_Main "HOL-Library.Word"
begin

section \<open>MilkFlow security core: data model\<close>

text \<open>
  The embedding follows \<^verbatim>\<open>src/js/security.js\<close> (module \<^verbatim>\<open>MilkSecurity\<close>) and the
  authentication part of \<^verbatim>\<open>src/js/app.js\<close> (module \<^verbatim>\<open>MilkApp\<close>).

  Conventions of the model:
  \<^item> \<^verbatim>\<open>Date.now()\<close> is an argument \<open>now\<close> of every function that reads the clock, in
    milliseconds as an \<open>int\<close>; one call of a function sees one clock value.
  \<^item> \<^verbatim>\<open>crypto.getRandomValues\<close> is an argument: the bytes that the call would return.
  \<^item> \<^verbatim>\<open>crypto.subtle.digest('SHA-256', bytes)\<close> is a parameter \<open>sha256\<close> from the bytes
    to the digest bytes. \<^verbatim>\<open>TextEncoder.encode\<close> is modelled (\<open>textEncode\<close>), and so is
    the hexadecimal rendering of the digest, which is code of the module.
  \<^item> The strings that are hashed or encrypted (passwords, salts, passphrases, JSON
    texts) are JavaScript strings, lists of 16-bit code units (\<open>jsstring\<close>). Names,
    roles, messages and texts of hexadecimal or base64 digits are lists of 8-bit
    characters (\<open>string\<close>); \<open>js\<close> turns such a text into a JavaScript string.
  \<^item> A \<^verbatim>\<open>localStorage\<close> key is a \<open>slot\<close>: absent, holding text that \<^verbatim>\<open>JSON.parse\<close>
    rejects, or holding the JSON text of a value.
  \<^item> An optional string (a field or an argument that may be \<^verbatim>\<open>undefined\<close>) is an
    \<open>option\<close>; it is truthy when it is present and not empty.
\<close>

type_synonym byte = "8 word"

type_synonym jsstring = "16 word list"

text \<open>The JavaScript string of a text of 8-bit characters: one code unit for each.\<close>

definition js :: "string \<Rightarrow> jsstring" where
  "js s = map (\<lambda>c. word_of_nat (of_char c)) s"

datatype 'a slot = Absent | Unparseable | Stored 'a

fun truthy :: "'a list option \<Rightarrow> bool" where
  "truthy None = False"
| "truthy (Some s) = (s \<noteq> [])"

record session =
  ses_username :: string
  ses_role :: string
  ses_name :: string
  ses_createdAt :: int
  ses_lastActivity :: int
  ses_token :: string
  ses_expiresAt :: int

record login_attempt =
  att_username :: string
  att_timestamp :: int
  att_success :: bool

record audit_entry =
  aud_action :: string
  aud_details :: string
  aud_username :: string
  aud_timestamp :: string
  aud_userAgent :: string

text \<open>
  The state of the security module: its three \<^verbatim>\<open>localStorage\<close> keys
  (\<^verbatim>\<open>mf_secure_session\<close>, \<^verbatim>\<open>mf_login_attempts\<close>, \<^verbatim>\<open>mf_audit_log\<close>) and whether the
  inactivity monitor (\<^verbatim>\<open>sessionCheckInterval\<close> and the activity listeners) is installed.
\<close>

record sec_state =
  session_slot :: "session slot"
  attempts_slot :: "login_attempt list slot"
  audit_slot :: "audit_entry list slot"
  monitor_on :: bool

section \<open>Password hashing\<close>

definition hexDigit :: "nat \<Rightarrow> char" where
  "hexDigit d = ''0123456789abcdef'' ! d"

text \<open>\<^verbatim>\<open>b.toString(16)\<close> for a byte: one or two lowercase hexadecimal digits.\<close>

definition toString16 :: "byte \<Rightarrow> string" where
  "toString16 b =
     (if unat b < 16 then [hexDigit (unat b)]
      else [hexDigit (unat b div 16), hexDigit (unat b mod 16)])"

text \<open>\<^verbatim>\<open>s.padStart(2, '0')\<close>.\<close>

definition padStart2 :: "string \<Rightarrow> string" where
  "padStart2 s = replicate (2 - length s) (CHR ''0'') @ s"

text \<open>\<^verbatim>\<open>Array.from(bytes).map(b => b.toString(16).padStart(2, '0')).join('')\<close>.\<close>

definition bytesToHex :: "byte list \<Rightarrow> string" where
  "bytesToHex bs = concat (map (\<lambda>b. padStart2 (toString16 b)) bs)"

text \<open>\<open>rnd\<close> is the content of the 16-byte array after \<^verbatim>\<open>crypto.getRandomValues\<close>.\<close>

definition generateSalt :: "byte list \<Rightarrow> string" where
  "generateSalt rnd = bytesToHex rnd"

text \<open>
  \<^verbatim>\<open>new TextEncoder().encode(s)\<close>, a built-in of the browser: the UTF-8 bytes of the
  code points of \<open>s\<close>, where a high surrogate followed by a low surrogate is one code
  point and every other surrogate is replaced by U+FFFD.
\<close>

definition isHighSurrogate :: "16 word \<Rightarrow> bool" where
  "isHighSurrogate u = (0xD800 \<le> unat u \<and> unat u \<le> 0xDBFF)"

definition isLowSurrogate :: "16 word \<Rightarrow> bool" where
  "isLowSurrogate u = (0xDC00 \<le> unat u \<and> unat u \<le> 0xDFFF)"

fun codePoints :: "jsstring \<Rightarrow> nat list" where
  "codePoints [] = []"
| "codePoints [u] = [if isHighSurrogate u \<or> isLowSurrogate u then 0xFFFD else unat u]"
| "codePoints (u # v # r) =
     (if isHighSurrogate u \<and> isLowSurrogate v
      then (0x10000 + (unat u - 0xD800) * 0x400 + (unat v - 0xDC00)) # codePoints r
      else (if isHighSurrogate u \<or> isLowSurrogate u then 0xFFFD else unat u) # codePoints (v # r))"

definition utf8 :: "nat \<Rightarrow> nat list" where
  "utf8 c =
     (if c < 0x80 then [c]
      else if c < 0x800 then [0xC0 + c div 64, 0x80 + c mod 64]
      else if c < 0x10000 then [0xE0 + c div 4096, 0x80 + c div 64 mod 64, 0x80 + c mod 64]
      else [0xF0 + c div 262144, 0x80 + c div 4096 mod 64, 0x80 + c div 64 mod 64,
            0x80 + c mod 64])"

definition textEncode :: "jsstring \<Rightarrow> byte list" where
  "textEncode s = map word_of_nat (concat (map utf8 (codePoints s)))"

text \<open>\<^verbatim>\<open>s.isWellFormed()\<close>: the string has no surrogate outside a pair.\<close>

fun isWellFormed :: "jsstring \<Rightarrow> bool" where
  "isWellFormed [] = True"
| "isWellFormed [u] = (\<not> isHighSurrogate u \<and> \<not> isLowSurrogate u)"
| "isWellFormed (u # v # r) =
     (if isHighSurrogate u then isLowSurrogate v \<and> isWellFormed r
      else \<not> isLowSurrogate u \<and> isWellFormed (v # r))"

record hash_result =
  hr_hash :: string
  hr_salt :: jsstring

definition hashPassword ::
  "(byte list \<Rightarrow> byte list) \<Rightarrow> byte list \<Rightarrow> jsstring \<Rightarrow> jsstring option \<Rightarrow> hash_result" where
  "hashPassword sha256 rnd password salt =
     (let salt1 = (case salt of
                     None \<Rightarrow> js (generateSalt rnd)
                   | Some s \<Rightarrow> if s = [] then js (generateSalt rnd) else s);
          data = textEncode (salt1 @ password);
          hashBuffer = sha256 data;
          hashHex = bytesToHex hashBuffer
      in \<lparr>hr_hash = hashHex, hr_salt = salt1\<rparr>)"

definition verifyPassword ::
  "(byte list \<Rightarrow> byte list) \<Rightarrow> byte list \<Rightarrow> jsstring \<Rightarrow> string \<Rightarrow> jsstring option \<Rightarrow> bool" where
  "verifyPassword sha256 rnd password storedHash salt =
     (hr_hash (hashPassword sha256 rnd password salt) = storedHash)"

section \<open>Login rate limiting\<close>

definition MAX_LOGIN_ATTEMPTS :: nat where
  "MAX_LOGIN_ATTEMPTS = 5"

definition LOCKOUT_DURATION_MS :: int where
  "LOCKOUT_DURATION_MS = 5 * 60 * 1000"

definition ATTEMPT_WINDOW_MS :: int where
  "ATTEMPT_WINDOW_MS = 15 * 60 * 1000"

text \<open>
  \<^verbatim>\<open>JSON.parse(localStorage.getItem(RATE_LIMIT_KEY)) || []\<close>, with the \<^verbatim>\<open>catch\<close> branch
  returning the empty list.
\<close>

definition getLoginAttempts :: "sec_state \<Rightarrow> login_attempt list" where
  "getLoginAttempts st =
     (case attempts_slot st of
        Absent \<Rightarrow> []
      | Unparseable \<Rightarrow> []
      | Stored attempts \<Rightarrow> attempts)"

definition recordLoginAttempt :: "int \<Rightarrow> string \<Rightarrow> bool \<Rightarrow> sec_state \<Rightarrow> sec_state" where
  "recordLoginAttempt now username success st =
     (let attempts = getLoginAttempts st @
            [\<lparr>att_username = username, att_timestamp = now, att_success = success\<rparr>];
          cutoff = now - ATTEMPT_WINDOW_MS;
          filtered = filter (\<lambda>a. att_timestamp a > cutoff) attempts
      in st\<lparr>attempts_slot := Stored filtered\<rparr>)"

text \<open>The local variables of \<^verbatim>\<open>isLoginLocked\<close>, each as a function of the clock and the state.\<close>

definition recentFailures :: "int \<Rightarrow> sec_state \<Rightarrow> login_attempt list" where
  "recentFailures now st =
     (let cutoff = now - LOCKOUT_DURATION_MS
      in filter (\<lambda>a. \<not> att_success a \<and> att_timestamp a > cutoff) (getLoginAttempts st))"

text \<open>
  \<^verbatim>\<open>Math.min(...recentFailures.map(a => a.timestamp))\<close>; it is only evaluated on a list of
  at least \<open>MAX_LOGIN_ATTEMPTS\<close> elements.
\<close>

definition oldestInWindow :: "int \<Rightarrow> sec_state \<Rightarrow> int" where
  "oldestInWindow now st = min_list (map att_timestamp (recentFailures now st))"

definition unlockTime :: "int \<Rightarrow> sec_state \<Rightarrow> int" where
  "unlockTime now st = oldestInWindow now st + LOCKOUT_DURATION_MS"

text \<open>
  \<^verbatim>\<open>Math.ceil(a / b)\<close> for integers \<open>a\<close> and \<open>b > 0\<close>. The quotients computed here are far
  below \<open>2^53\<close>, where the floating-point quotient has the ceiling of the exact one.
\<close>

definition ceilDiv :: "int \<Rightarrow> int \<Rightarrow> int" where
  "ceilDiv a b = - ((- a) div b)"

text \<open>Decimal rendering of an integer in a template literal.\<close>

fun natToString :: "nat \<Rightarrow> string" where
  "natToString n =
     (if n < 10 then [''0123456789'' ! n]
      else natToString (n div 10) @ [''0123456789'' ! (n mod 10)])"

definition numToString :: "int \<Rightarrow> string" where
  "numToString i = (if i < 0 then CHR ''-'' # natToString (nat (- i)) else natToString (nat i))"

record lock_status =
  locked :: bool
  remainingMinutes :: "int option"
  message :: "string option"
  remainingAttempts :: "int option"

definition isLoginLocked :: "int \<Rightarrow> sec_state \<Rightarrow> lock_status" where
  "isLoginLocked now st =
     (if length (recentFailures now st) \<ge> MAX_LOGIN_ATTEMPTS then
        (let remainingMs = unlockTime now st - now;
             remainingMin = ceilDiv remainingMs 60000
         in \<lparr>locked = True,
             remainingMinutes = Some remainingMin,
             message = Some (''Too many failed attempts. Try again in '' @ numToString remainingMin
                             @ '' minute'' @ (if remainingMin > 1 then ''s'' else '''') @ ''.''),
             remainingAttempts = None\<rparr>)
      else
        \<lparr>locked = False,
         remainingMinutes = None,
         message = None,
         remainingAttempts = Some (int MAX_LOGIN_ATTEMPTS - int (length (recentFailures now st)))\<rparr>)"

section \<open>Session management\<close>

text \<open>The \<^verbatim>\<open>currentUser\<close> object of the application, as handed to \<^verbatim>\<open>createSession\<close>.\<close>

record user_info =
  ui_username :: string
  ui_role :: string
  ui_name :: string

definition SESSION_TIMEOUT_MS :: int where
  "SESSION_TIMEOUT_MS = 30 * 60 * 1000"

text \<open>\<open>rnd\<close> is the content of the 32-byte array after \<^verbatim>\<open>crypto.getRandomValues\<close>.\<close>

definition generateSessionToken :: "byte list \<Rightarrow> string" where
  "generateSessionToken rnd = bytesToHex rnd"

text \<open>
  The monitor removes its timer and listeners and installs new ones; of the two only
  whether they are installed is kept in the state.
\<close>

definition stopInactivityMonitor :: "sec_state \<Rightarrow> sec_state" where
  "stopInactivityMonitor st = st\<lparr>monitor_on := False\<rparr>"

definition startInactivityMonitor :: "sec_state \<Rightarrow> sec_state" where
  "startInactivityMonitor st = (stopInactivityMonitor st)\<lparr>monitor_on := True\<rparr>"

definition createSession ::
  "int \<Rightarrow> byte list \<Rightarrow> user_info \<Rightarrow> sec_state \<Rightarrow> session \<times> sec_state" where
  "createSession now rnd user st =
     (let session = \<lparr>ses_username = ui_username user,
                      ses_role = ui_role user,
                      ses_name = ui_name user,
                      ses_createdAt = now,
                      ses_lastActivity = now,
                      ses_token = generateSessionToken rnd,
                      ses_expiresAt = now + SESSION_TIMEOUT_MS\<rparr>
      in (session, startInactivityMonitor (st\<lparr>session_slot := Stored session\<rparr>)))"

definition destroySession :: "sec_state \<Rightarrow> sec_state" where
  "destroySession st = stopInactivityMonitor (st\<lparr>session_slot := Absent\<rparr>)"

text \<open>The result is the returned session (\<open>None\<close> for \<^verbatim>\<open>null\<close>) and the state afterwards.\<close>

definition getSession :: "int \<Rightarrow> sec_state \<Rightarrow> session option \<times> sec_state" where
  "getSession now st =
     (case session_slot st of
        Absent \<Rightarrow> (None, st)
      | Unparseable \<Rightarrow> (None, st)
      | Stored session \<Rightarrow>
          if now > ses_expiresAt session then (None, destroySession st)
          else (Some session, st))"

definition refreshSession :: "int \<Rightarrow> sec_state \<Rightarrow> session option \<times> sec_state" where
  "refreshSession now st =
     (case getSession now st of
        (None, st1) \<Rightarrow> (None, st1)
      | (Some session, st1) \<Rightarrow>
          (let session1 = session\<lparr>ses_lastActivity := now,
                                   ses_expiresAt := now + SESSION_TIMEOUT_MS\<rparr>
           in (Some session1, st1\<lparr>session_slot := Stored session1\<rparr>)))"

section \<open>Password rules\<close>

definition isLower :: "char \<Rightarrow> bool" where
  "isLower c = (97 \<le> (of_char c :: nat) \<and> (of_char c :: nat) \<le> 122)"

definition isUpper :: "char \<Rightarrow> bool" where
  "isUpper c = (65 \<le> (of_char c :: nat) \<and> (of_char c :: nat) \<le> 90)"

definition isDigit :: "char \<Rightarrow> bool" where
  "isDigit c = (48 \<le> (of_char c :: nat) \<and> (of_char c :: nat) \<le> 57)"

record strength =
  level :: nat
  label :: string
  color :: string

definition getPasswordStrength :: "string \<Rightarrow> strength" where
  "getPasswordStrength password =
     (if password = [] then \<lparr>level = 0, label = ''None'', color = ''#64748b''\<rparr>
      else
        (let score = (if length password \<ge> 6 then 1 else 0)
                   + (if length password \<ge> 8 then 1 else 0)
                   + (if length password \<ge> 12 then 1 else 0)
                   + (if list_ex isLower password then 1 else 0)
                   + (if list_ex isUpper password then 1 else 0)
                   + (if list_ex isDigit password then 1 else 0)
                   + (if list_ex (\<lambda>c. \<not> isLower c \<and> \<not> isUpper c \<and> \<not> isDigit c) password
                      then 1 else (0::nat))
         in if score \<le> 2 then \<lparr>level = 1, label = ''Weak'', color = ''#ef4444''\<rparr>
            else if score \<le> 4 then \<lparr>level = 2, label = ''Fair'', color = ''#eab308''\<rparr>
            else if score \<le> 5 then \<lparr>level = 3, label = ''Good'', color = ''#22c55e''\<rparr>
            else \<lparr>level = 4, label = ''Strong'', color = ''#14b8a6''\<rparr>))"

record password_validation =
  valid :: bool
  issues :: "string list"
  strength :: strength

text \<open>
  Each \<^verbatim>\<open>issues.push\<close> appends; \<open>password = []\<close> is the falsy password of the guards
  \<^verbatim>\<open>!password\<close> and \<^verbatim>\<open>password &&\<close>.
\<close>

definition validatePassword :: "string \<Rightarrow> password_validation" where
  "validatePassword password =
     (let issues1 = (if password = [] \<or> length password < 6
                     then [''Must be at least 6 characters''] else []);
          issues2 = (if password \<noteq> [] \<and> length password > 128
                     then issues1 @ [''Must be under 128 characters''] else issues1);
          issues3 = (if password \<noteq> [] \<and> \<not> list_ex isLower password
                     then issues2 @ [''Must contain at least one lowercase letter''] else issues2);
          issues4 = (if password \<noteq> [] \<and> \<not> list_ex isUpper password
                     then issues3 @ [''Must contain at least one uppercase letter''] else issues3);
          issues5 = (if password \<noteq> [] \<and> \<not> list_ex isDigit password
                     then issues4 @ [''Must contain at least one number''] else issues4)
      in \<lparr>valid = (length issues5 = 0),
          issues = issues5,
          strength = getPasswordStrength password\<rparr>)"

section \<open>Audit log\<close>

text \<open>
  The object that \<^verbatim>\<open>auditLog\<close> puts in front of the log; \<open>isoNow\<close> is
  \<^verbatim>\<open>new Date().toISOString()\<close> and \<open>userAgent\<close> is \<^verbatim>\<open>navigator.userAgent\<close>.
\<close>

definition auditEntry ::
  "string \<Rightarrow> string \<Rightarrow> string \<Rightarrow> string \<Rightarrow> string option \<Rightarrow> audit_entry" where
  "auditEntry isoNow userAgent action details username =
     \<lparr>aud_action = action,
      aud_details = details,
      aud_username = (case username of
                        None \<Rightarrow> ''system''
                      | Some u \<Rightarrow> if u = [] then ''system'' else u),
      aud_timestamp = isoNow,
      aud_userAgent = take 100 userAgent\<rparr>"

text \<open>
  A missing log reads as \<^verbatim>\<open>'[]'\<close>. A log that does not parse raises inside the \<^verbatim>\<open>try\<close>,
  and the call changes nothing.
\<close>

definition auditLog ::
  "string \<Rightarrow> string \<Rightarrow> string \<Rightarrow> string \<Rightarrow> string option \<Rightarrow> sec_state \<Rightarrow> sec_state" where
  "auditLog isoNow userAgent action details username st =
     (let parsed = (case audit_slot st of
                      Absent \<Rightarrow> Some []
                    | Unparseable \<Rightarrow> None
                    | Stored logs \<Rightarrow> Some logs)
      in case parsed of
           None \<Rightarrow> st
         | Some logs \<Rightarrow>
             (let logs1 = auditEntry isoNow userAgent action details username # logs;
                  logs2 = (if length logs1 > 200 then take 200 logs1 else logs1)
              in st\<lparr>audit_slot := Stored logs2\<rparr>))"

definition getAuditLogs :: "sec_state \<Rightarrow> audit_entry list" where
  "getAuditLogs st =
     (case audit_slot st of
        Absent \<Rightarrow> []
      | Unparseable \<Rightarrow> []
      | Stored logs \<Rightarrow> logs)"

section \<open>Application: users, login and the credential migration\<close>

record user_rec =
  usr_username :: string
  usr_password :: "jsstring option"
  usr_passwordHash :: "string option"
  usr_salt :: "jsstring option"
  usr_role :: string
  usr_name :: string

text \<open>
  The part of the application state that authentication touches: the security module,
  the \<^verbatim>\<open>mf_users\<close> key and the variable \<^verbatim>\<open>currentUser\<close>. Toasts and screen changes
  are not part of it.
\<close>

record app_state =
  sec :: sec_state
  users_slot :: "user_rec list slot"
  currentUser :: "user_info option"

text \<open>\<^verbatim>\<open>dbGetList(DB_KEYS.users)\<close>: \<^verbatim>\<open>dbGet(key) || []\<close>.\<close>

definition dbGetList :: "'a list slot \<Rightarrow> 'a list" where
  "dbGetList s = (case s of Absent \<Rightarrow> [] | Unparseable \<Rightarrow> [] | Stored xs \<Rightarrow> xs)"

text \<open>
  The test that guards the success branch of \<^verbatim>\<open>login\<close>: the first user with this name
  and role, when it has a truthy \<^verbatim>\<open>passwordHash\<close> that the password verifies against.
\<close>

definition verifiedUser ::
  "(byte list \<Rightarrow> byte list) \<Rightarrow> byte list \<Rightarrow> user_rec list \<Rightarrow> string \<Rightarrow> jsstring \<Rightarrow> string
     \<Rightarrow> user_rec option" where
  "verifiedUser sha256 rndSalt users username password role =
     (case find (\<lambda>u. usr_username u = username \<and> usr_role u = role) users of
        None \<Rightarrow> None
      | Some user \<Rightarrow>
          (case usr_passwordHash user of
             None \<Rightarrow> None
           | Some h \<Rightarrow>
               if h \<noteq> [] \<and> verifyPassword sha256 rndSalt password h (usr_salt user)
               then Some user else None))"

definition login ::
  "(byte list \<Rightarrow> byte list) \<Rightarrow> int \<Rightarrow> byte list \<Rightarrow> byte list \<Rightarrow> string \<Rightarrow> string
     \<Rightarrow> string \<Rightarrow> jsstring \<Rightarrow> string \<Rightarrow> app_state \<Rightarrow> bool \<times> app_state" where
  "login sha256 now rndSalt rndToken isoNow userAgent username password role st =
     (let rateLimit = isLoginLocked now (sec st)
      in if locked rateLimit then (False, st)
         else
           (case verifiedUser sha256 rndSalt (dbGetList (users_slot st)) username password role of
              Some user \<Rightarrow>
                (let cu = \<lparr>ui_username = usr_username user, ui_role = usr_role user,
                           ui_name = usr_name user\<rparr>;
                     s1 = snd (createSession now rndToken cu (sec st));
                     s2 = recordLoginAttempt now username True s1;
                     s3 = auditLog isoNow userAgent ''LOGIN_SUCCESS''
                            (''User logged in as '' @ role) (Some username) s2
                 in (True, st\<lparr>sec := s3, currentUser := Some cu\<rparr>))
            | None \<Rightarrow>
                (let s1 = recordLoginAttempt now username False (sec st);
                     s2 = auditLog isoNow userAgent ''LOGIN_FAILED''
                            (''Failed login attempt for role: '' @ role) (Some username) s1
                 in (False, st\<lparr>sec := s2\<rparr>))))"

definition defaultWeakPasswords :: "jsstring list" where
  "defaultWeakPasswords =
     [js ''owner123'', js ''staff123'', js ''admin'', js ''password'', js ''1234'']"

text \<open>
  The body of the loop of \<^verbatim>\<open>migratePasswords\<close> for one record; \<open>rnd\<close> is the random salt
  material of this iteration's \<^verbatim>\<open>hashPassword\<close>. The second component says whether the
  record was rewritten.
\<close>

definition migrateUser ::
  "(byte list \<Rightarrow> byte list) \<Rightarrow> byte list \<Rightarrow> user_rec \<Rightarrow> user_rec \<times> bool" where
  "migrateUser sha256 rnd u =
     (case usr_password u of
        None \<Rightarrow> (u, False)
      | Some pw \<Rightarrow>
          if pw \<noteq> [] \<and> \<not> truthy (usr_passwordHash u) then
            (let newPassword = (if pw \<in> set defaultWeakPasswords
                                then (if usr_role u = ''owner'' then js ''Owner@123''
                                      else js ''Staff@123'')
                                else pw);
                 result = hashPassword sha256 rnd newPassword None
             in (u\<lparr>usr_passwordHash := Some (hr_hash result),
                   usr_salt := Some (hr_salt result),
                   usr_password := None\<rparr>, True))
          else (u, False))"

text \<open>
  The loop over the indices \<open>i, i + 1, \<dots>\<close> of the user list, with the flag \<open>migrated\<close>;
  \<open>rnd i\<close> is the random salt material of iteration \<open>i\<close>.
\<close>

fun migrateLoop ::
  "(byte list \<Rightarrow> byte list) \<Rightarrow> (nat \<Rightarrow> byte list) \<Rightarrow> nat \<Rightarrow> user_rec list \<Rightarrow> bool
     \<Rightarrow> user_rec list \<times> bool" where
  "migrateLoop sha256 rnd i [] migrated = ([], migrated)"
| "migrateLoop sha256 rnd i (u # us) migrated =
     (let (u1, changed) = migrateUser sha256 (rnd i) u;
          (us1, migrated1) = migrateLoop sha256 rnd (Suc i) us (migrated \<or> changed)
      in (u1 # us1, migrated1))"

definition migratePasswords ::
  "(byte list \<Rightarrow> byte list) \<Rightarrow> (nat \<Rightarrow> byte list) \<Rightarrow> string \<Rightarrow> string \<Rightarrow> app_state
     \<Rightarrow> app_state" where
  "migratePasswords sha256 rnd isoNow userAgent st =
     (let users = dbGetList (users_slot st);
          (users1, migrated) = migrateLoop sha256 rnd 0 users False
      in if migrated then
           st\<lparr>users_slot := Stored users1,
              sec := auditLog isoNow userAgent ''PASSWORD_MIGRATION''
                       ''Migrated and strengthened passwords'' (Some ''system'') (sec st)\<rparr>
         else st)"

section \<open>Backup encryption\<close>









section \<open>Concrete states used by the worked examples\<close>

text \<open>A fresh installation: no key is set and no monitor runs.\<close>

definition freshState :: sec_state where
  "freshState =
     \<lparr>session_slot = Absent, attempts_slot = Absent, audit_slot = Absent, monitor_on = False\<rparr>"

definition failedAt :: "int \<Rightarrow> login_attempt" where
  "failedAt t = \<lparr>att_username = ''owner'', att_timestamp = t, att_success = False\<rparr>"

text \<open>Five failures, one second apart, in an otherwise fresh installation.\<close>

definition fiveFailures :: sec_state where
  "fiveFailures =
     freshState\<lparr>attempts_slot :=
       Stored [failedAt 1000, failedAt 2000, failedAt 3000, failedAt 4000, failedAt 5000]\<rparr>"

text \<open>
  One call of \<^verbatim>\<open>auditLog\<close>: its three arguments and the two values it reads from the
  environment. A run applies the calls of a list in order, first call first.
\<close>

record audit_call =
  ac_isoNow :: string
  ac_userAgent :: string
  ac_action :: string
  ac_details :: string
  ac_username :: "string option"

definition entryOf :: "audit_call \<Rightarrow> audit_entry" where
  "entryOf c = auditEntry (ac_isoNow c) (ac_userAgent c) (ac_action c) (ac_details c) (ac_username c)"

fun auditRun :: "audit_call list \<Rightarrow> sec_state \<Rightarrow> sec_state" where
  "auditRun [] st = st"
| "auditRun (c # cs) st =
     auditRun cs (auditLog (ac_isoNow c) (ac_userAgent c) (ac_action c) (ac_details c)
                    (ac_username c) st)"

definition oldEntry :: audit_entry where
  "oldEntry = auditEntry ''2024-01-01T00:00:00.000Z'' ''Mozilla/5.0'' ''LOGOUT''
                ''User logged out'' (Some ''owner'')"

definition fullLog :: sec_state where
  "fullLog = freshState\<lparr>audit_slot := Stored (replicate 200 oldEntry)\<rparr>"

definition ownerInfo :: user_info where
  "ownerInfo = \<lparr>ui_username = ''owner'', ui_role = ''owner'', ui_name = ''Shop Owner''\<rparr>"

text \<open>The owner logs in at clock value 0 on a fresh installation; each of the 32 token bytes is 171.\<close>

definition ownerSession :: session where
  "ownerSession = fst (createSession 0 (replicate 32 171) ownerInfo freshState)"

definition loggedIn :: sec_state where
  "loggedIn = snd (createSession 0 (replicate 32 171) ownerInfo freshState)"

text \<open>
  A stand-in for the digest in worked examples: the input bytes themselves. It has no
  collisions at all.
\<close>

definition plainDigest :: "byte list \<Rightarrow> byte list" where
  "plainDigest bs = bs"

definition saltBytesA :: "byte list" where
  "saltBytesA = [1, 2, 3, 4, 5, 6, 7, 8, 9, 10, 11, 12, 13, 14, 15, 16]"

definition saltBytesB :: "byte list" where
  "saltBytesB = [16, 15, 14, 13, 12, 11, 10, 9, 8, 7, 6, 5, 4, 3, 2, 1]"

text \<open>
  A store of three users: a legacy owner with a weak default password, a legacy staff
  member with a password of their own, and a user that already has a hash.
\<close>

definition legacyOwner :: user_rec where
  "legacyOwner = \<lparr>usr_username = ''owner'', usr_password = Some (js ''owner123''),
                   usr_passwordHash = None, usr_salt = None,
                   usr_role = ''owner'', usr_name = ''Shop Owner''\<rparr>"

definition legacyStaff :: user_rec where
  "legacyStaff = \<lparr>usr_username = ''ravi'', usr_password = Some (js ''Milk2024''),
                   usr_passwordHash = None, usr_salt = None,
                   usr_role = ''staff'', usr_name = ''Ravi''\<rparr>"

definition hashedUser :: user_rec where
  "hashedUser = \<lparr>usr_username = ''asha'', usr_password = None,
                  usr_passwordHash =
                    Some ''9f86d081884c7d659a2feaa0c55ad015a3bf4f1b2b0b822cd15d6c15b0f00a08'',
                  usr_salt = Some (js ''0102030405060708090a0b0c0d0e0f10''),
                  usr_role = ''staff'', usr_name = ''Asha''\<rparr>"

definition legacyApp :: app_state where
  "legacyApp = \<lparr>sec = freshState,
                 users_slot = Stored [legacyOwner, legacyStaff, hashedUser],
                 currentUser = None\<rparr>"

text \<open>
  A run of failed attempts: \<open>recordLoginAttempt(username, false)\<close> at each clock value and
  user name of the list, in order.
\<close>

fun recordFailures :: "(int \<times> string) list \<Rightarrow> sec_state \<Rightarrow> sec_state" where
  "recordFailures [] st = st"
| "recordFailures ((t, u) # r) st = recordFailures r (recordLoginAttempt t u False st)"

definition failureOf :: "int \<times> string \<Rightarrow> login_attempt" where
  "failureOf c = \<lparr>att_username = snd c, att_timestamp = fst c, att_success = False\<rparr>"

text \<open>Five failures of the owner, one second apart, recorded on a fresh installation.\<close>

definition fiveRecorded :: sec_state where
  "fiveRecorded =
     recordFailures [(1000, ''owner''), (2000, ''owner''), (3000, ''owner''), (4000, ''owner''),
                     (5000, ''owner'')] freshState"

text \<open>
  One call of \<^verbatim>\<open>login\<close>: the clock value, the random bytes and the other values it
  reads from the environment, and its three arguments. A run applies the calls of a
  list in order.
\<close>

record login_call =
  lc_now :: int
  lc_rndSalt :: "byte list"
  lc_rndToken :: "byte list"
  lc_isoNow :: string
  lc_userAgent :: string
  lc_username :: string
  lc_password :: jsstring
  lc_role :: string

definition loginCall ::
  "(byte list \<Rightarrow> byte list) \<Rightarrow> login_call \<Rightarrow> app_state \<Rightarrow> bool \<times> app_state" where
  "loginCall sha256 c st =
     login sha256 (lc_now c) (lc_rndSalt c) (lc_rndToken c) (lc_isoNow c) (lc_userAgent c)
       (lc_username c) (lc_password c) (lc_role c) st"

fun loginRun ::
  "(byte list \<Rightarrow> byte list) \<Rightarrow> login_call list \<Rightarrow> app_state \<Rightarrow> app_state" where
  "loginRun sha256 [] st = st"
| "loginRun sha256 (c # cs) st = loginRun sha256 cs (snd (loginCall sha256 c st))"

text \<open>The call does not pass the credential test of \<^verbatim>\<open>login\<close> against the users of the state.\<close>

definition wrongCredentials ::
  "(byte list \<Rightarrow> byte list) \<Rightarrow> app_state \<Rightarrow> login_call \<Rightarrow> bool" where
  "wrongCredentials sha256 st c =
     (verifiedUser sha256 (lc_rndSalt c) (dbGetList (users_slot st))
        (lc_username c) (lc_password c) (lc_role c) = None)"

definition attemptOf :: "login_call \<Rightarrow> login_attempt" where
  "attemptOf c = \<lparr>att_username = lc_username c, att_timestamp = lc_now c, att_success = False\<rparr>"

text \<open>
  A shop whose only user is the owner with the default password \<open>Owner@123\<close>, hashed as
  \<^verbatim>\<open>initDefaults\<close> does, and logins of the owner with a wrong and with the right password.
\<close>

definition hashedOwner :: user_rec where
  "hashedOwner =
     \<lparr>usr_username = ''owner'', usr_password = None,
      usr_passwordHash =
        Some (hr_hash (hashPassword plainDigest saltBytesA (js ''Owner@123'') None)),
      usr_salt = Some (hr_salt (hashPassword plainDigest saltBytesA (js ''Owner@123'') None)),
      usr_role = ''owner'', usr_name = ''Shop Owner''\<rparr>"

definition shopApp :: app_state where
  "shopApp = \<lparr>sec = freshState, users_slot = Stored [hashedOwner], currentUser = None\<rparr>"

definition ownerLogin :: "int \<Rightarrow> jsstring \<Rightarrow> login_call" where
  "ownerLogin t pw =
     \<lparr>lc_now = t, lc_rndSalt = saltBytesB, lc_rndToken = replicate 32 171,
      lc_isoNow = ''2024-01-01T00:00:00.000Z'', lc_userAgent = ''Mozilla/5.0'',
      lc_username = ''owner'', lc_password = pw, lc_role = ''owner''\<rparr>"

definition fiveWrongLogins :: "login_call list" where
  "fiveWrongLogins =
     [ownerLogin 0 (js ''owner123''), ownerLogin 20000 (js ''owner123''),
      ownerLogin 40000 (js ''owner123''), ownerLogin 60000 (js ''owner123''),
      ownerLogin 110000 (js ''owner123'')]"

text \<open>
  The same shop with four failed attempts at seconds 1 to 4 in its log, and five logins
  with a wrong password between second 200 and second 310.
\<close>

definition staleApp :: app_state where
  "staleApp =
     shopApp\<lparr>sec := freshState\<lparr>attempts_slot :=
       Stored [failedAt 1000, failedAt 2000, failedAt 3000, failedAt 4000]\<rparr>\<rparr>"

definition lateWrongLogins :: "login_call list" where
  "lateWrongLogins =
     [ownerLogin 200000 (js ''owner123''), ownerLogin 220000 (js ''owner123''),
      ownerLogin 240000 (js ''owner123''), ownerLogin 260000 (js ''owner123''),
      ownerLogin 310000 (js ''owner123'')]"






section \<open>Auxiliary facts\<close>

lemma ceilDiv_ceiling: "ceilDiv a b = \<lceil>real_of_int a / real_of_int b\<rceil>"
  unfolding ceilDiv_def ceiling_def
  by (metis floor_divide_of_int_eq minus_divide_left of_int_minus)

lemma min_list_mem: "xs \<noteq> [] \<Longrightarrow> min_list xs \<in> set (xs :: int list)"
  using Min_in [of "set xs"] by (simp add: min_list_Min)

lemma min_list_le: "x \<in> set xs \<Longrightarrow> min_list xs \<le> (x::int)"
  by (cases "xs = []") (simp_all add: min_list_Min)

lemma locked_iff: "locked (isLoginLocked now st) \<longleftrightarrow> 5 \<le> length (recentFailures now st)"
  by (simp add: isLoginLocked_def MAX_LOGIN_ATTEMPTS_def Let_def)

section \<open>The lockout rule\<close>

text \<open>
  Claim C1. For every attempt log and every clock value, \<open>isLoginLocked\<close> reports locked
  exactly when at least 5 failed attempts are less than 5 minutes old. When it does, one
  of these failures is the oldest of them, the unlock time is its timestamp plus 5
  minutes, and \<open>remainingMinutes\<close> is the time left until then in minutes, rounded up.
\<close>

theorem isLoginLocked_window:
  "(locked (isLoginLocked now st) \<longleftrightarrow>
      5 \<le> length (filter (\<lambda>a. \<not> att_success a \<and> now - att_timestamp a < 5 * 60 * 1000)
                    (getLoginAttempts st))) \<and>
   (locked (isLoginLocked now st) \<longrightarrow>
      (\<exists>a \<in> set (getLoginAttempts st).
          \<not> att_success a \<and> now - att_timestamp a < 5 * 60 * 1000 \<and>
          (\<forall>b \<in> set (getLoginAttempts st).
              \<not> att_success b \<and> now - att_timestamp b < 5 * 60 * 1000 \<longrightarrow>
              att_timestamp a \<le> att_timestamp b) \<and>
          unlockTime now st = att_timestamp a + 5 * 60 * 1000 \<and>
          remainingMinutes (isLoginLocked now st) =
            Some \<lceil>real_of_int (att_timestamp a + 5 * 60 * 1000 - now) / 60000\<rceil>))"
proof -
  let ?q = "\<lambda>a. \<not> att_success a \<and> now - att_timestamp a < 5 * 60 * 1000"
  have rf: "recentFailures now st = filter ?q (getLoginAttempts st)"
    unfolding recentFailures_def LOCKOUT_DURATION_MS_def Let_def
    by (rule filter_cong) auto
  have lk: "locked (isLoginLocked now st) \<longleftrightarrow> 5 \<le> length (recentFailures now st)"
    by (rule locked_iff)
  have second: "\<exists>a \<in> set (getLoginAttempts st). ?q a \<and>
          (\<forall>b \<in> set (getLoginAttempts st). ?q b \<longrightarrow> att_timestamp a \<le> att_timestamp b) \<and>
          unlockTime now st = att_timestamp a + 5 * 60 * 1000 \<and>
          remainingMinutes (isLoginLocked now st) =
            Some \<lceil>real_of_int (att_timestamp a + 5 * 60 * 1000 - now) / 60000\<rceil>"
    if L: "locked (isLoginLocked now st)"
  proof -
    from L lk have ne: "map att_timestamp (recentFailures now st) \<noteq> []" by auto
    from min_list_mem [OF ne] obtain a where
      a: "a \<in> set (recentFailures now st)" and m: "oldestInWindow now st = att_timestamp a"
      unfolding oldestInWindow_def by auto
    have le: "att_timestamp a \<le> att_timestamp b" if "b \<in> set (recentFailures now st)" for b
      using that m min_list_le [of "att_timestamp b" "map att_timestamp (recentFailures now st)"]
      unfolding oldestInWindow_def by simp
    have u: "unlockTime now st = att_timestamp a + 5 * 60 * 1000"
      by (simp add: unlockTime_def m LOCKOUT_DURATION_MS_def)
    have r: "remainingMinutes (isLoginLocked now st) =
            Some \<lceil>real_of_int (att_timestamp a + 5 * 60 * 1000 - now) / 60000\<rceil>"
      using L lk u by (simp add: isLoginLocked_def MAX_LOGIN_ATTEMPTS_def Let_def ceilDiv_ceiling)
    from a le u r show ?thesis unfolding rf by auto
  qed
  from lk rf second show ?thesis by simp
qed

lemma fiveFailures_recent:
  "recentFailures 10000 fiveFailures =
     [failedAt 1000, failedAt 2000, failedAt 3000, failedAt 4000, failedAt 5000]"
  by (simp add: recentFailures_def fiveFailures_def freshState_def getLoginAttempts_def
      failedAt_def LOCKOUT_DURATION_MS_def)

text \<open>
  At clock value 10000 the five failures of \<open>fiveFailures\<close> lock the login until 301000,
  which is 291 seconds away: 5 minutes when rounded up.
\<close>

theorem isLoginLocked_window_witness:
  "locked (isLoginLocked 10000 fiveFailures) \<and>
   unlockTime 10000 fiveFailures = 301000 \<and>
   remainingMinutes (isLoginLocked 10000 fiveFailures) = Some 5"
proof -
  have L: "locked (isLoginLocked 10000 fiveFailures)"
    by (simp add: locked_iff fiveFailures_recent)
  have U: "unlockTime 10000 fiveFailures = 301000"
    by (simp add: unlockTime_def oldestInWindow_def fiveFailures_recent failedAt_def
        LOCKOUT_DURATION_MS_def)
  from isLoginLocked_window [of 10000 fiveFailures, THEN conjunct2, THEN mp, OF L]
  obtain a :: login_attempt where
    "unlockTime 10000 fiveFailures = att_timestamp a + 5 * 60 * 1000"
    "remainingMinutes (isLoginLocked 10000 fiveFailures) =
       Some \<lceil>real_of_int (att_timestamp a + 5 * 60 * 1000 - 10000) / 60000\<rceil>"
    by blast
  with U have "remainingMinutes (isLoginLocked 10000 fiveFailures) =
       Some \<lceil>real_of_int (301000 - 10000) / 60000\<rceil>"
    by simp
  also have "\<lceil>real_of_int (301000 - 10000) / 60000\<rceil> = 5"
    by (simp add: ceiling_eq_iff)
  finally show ?thesis using L U by simp
qed

section \<open>What the password check reports\<close>

lemma char_in_range:
  assumes "lo \<le> (of_char c :: nat)" "(of_char c :: nat) \<le> hi"
  shows "c \<in> set (map char_of [lo..<Suc hi])"
proof -
  have "c = char_of (of_char c :: nat)" by simp
  moreover from assms have "(of_char c :: nat) \<in> set [lo..<Suc hi]" by auto
  ultimately show ?thesis by (metis image_eqI set_map)
qed

lemma isLower_iff: "isLower c \<longleftrightarrow> c \<in> set ''abcdefghijklmnopqrstuvwxyz''"
proof
  assume "isLower c"
  then have "c \<in> set (map char_of [97..<Suc 122])"
    unfolding isLower_def by (intro char_in_range) auto
  also have "map char_of [97..<Suc 122] = ''abcdefghijklmnopqrstuvwxyz''"
    by code_simp
  finally show "c \<in> set ''abcdefghijklmnopqrstuvwxyz''" .
next
  assume "c \<in> set ''abcdefghijklmnopqrstuvwxyz''"
  then show "isLower c" unfolding isLower_def by auto
qed

lemma isUpper_iff: "isUpper c \<longleftrightarrow> c \<in> set ''ABCDEFGHIJKLMNOPQRSTUVWXYZ''"
proof
  assume "isUpper c"
  then have "c \<in> set (map char_of [65..<Suc 90])"
    unfolding isUpper_def by (intro char_in_range) auto
  also have "map char_of [65..<Suc 90] = ''ABCDEFGHIJKLMNOPQRSTUVWXYZ''"
    by code_simp
  finally show "c \<in> set ''ABCDEFGHIJKLMNOPQRSTUVWXYZ''" .
next
  assume "c \<in> set ''ABCDEFGHIJKLMNOPQRSTUVWXYZ''"
  then show "isUpper c" unfolding isUpper_def by auto
qed

lemma isDigit_iff: "isDigit c \<longleftrightarrow> c \<in> set ''0123456789''"
proof
  assume "isDigit c"
  then have "c \<in> set (map char_of [48..<Suc 57])"
    unfolding isDigit_def by (intro char_in_range) auto
  also have "map char_of [48..<Suc 57] = ''0123456789''"
    by code_simp
  finally show "c \<in> set ''0123456789''" .
next
  assume "c \<in> set ''0123456789''"
  then show "isDigit c" unfolding isDigit_def by auto
qed

lemma issues_validatePassword:
  "issues (validatePassword p) =
     (if length p < 6 then [''Must be at least 6 characters''] else []) @
     (if 128 < length p then [''Must be under 128 characters''] else []) @
     (if p \<noteq> [] \<and> \<not> list_ex isLower p
        then [''Must contain at least one lowercase letter''] else []) @
     (if p \<noteq> [] \<and> \<not> list_ex isUpper p
        then [''Must contain at least one uppercase letter''] else []) @
     (if p \<noteq> [] \<and> \<not> list_ex isDigit p
        then [''Must contain at least one number''] else [])"
  by (cases "p = []") (simp_all add: validatePassword_def Let_def)

lemma valid_validatePassword:
  "valid (validatePassword p) \<longleftrightarrow> issues (validatePassword p) = []"
  by (simp add: validatePassword_def Let_def)

text \<open>
  Claim C10, as amended. \<open>validatePassword p\<close> is valid exactly when \<open>p\<close> has between 6
  and 128 characters and contains a lowercase letter, an uppercase letter and a digit.
  When it is not valid the list of issues is not empty. The two length rules are named
  exactly when they are violated, for every \<open>p\<close>; the three character rules are named
  exactly when they are violated for every non-empty \<open>p\<close>; for the empty password the
  list names the minimum length only.
\<close>

theorem validatePassword_rules:
  "(valid (validatePassword p) \<longleftrightarrow>
      6 \<le> length p \<and> length p \<le> 128 \<and>
      (\<exists>c \<in> set p. c \<in> set ''abcdefghijklmnopqrstuvwxyz'') \<and>
      (\<exists>c \<in> set p. c \<in> set ''ABCDEFGHIJKLMNOPQRSTUVWXYZ'') \<and>
      (\<exists>c \<in> set p. c \<in> set ''0123456789'')) \<and>
   (\<not> valid (validatePassword p) \<longrightarrow> issues (validatePassword p) \<noteq> []) \<and>
   (length p < 6 \<longleftrightarrow>
      ''Must be at least 6 characters'' \<in> set (issues (validatePassword p))) \<and>
   (128 < length p \<longleftrightarrow>
      ''Must be under 128 characters'' \<in> set (issues (validatePassword p))) \<and>
   (p \<noteq> [] \<longrightarrow>
      ((\<forall>c \<in> set p. c \<notin> set ''abcdefghijklmnopqrstuvwxyz'') \<longleftrightarrow>
         ''Must contain at least one lowercase letter'' \<in> set (issues (validatePassword p))) \<and>
      ((\<forall>c \<in> set p. c \<notin> set ''ABCDEFGHIJKLMNOPQRSTUVWXYZ'') \<longleftrightarrow>
         ''Must contain at least one uppercase letter'' \<in> set (issues (validatePassword p))) \<and>
      ((\<forall>c \<in> set p. c \<notin> set ''0123456789'') \<longleftrightarrow>
         ''Must contain at least one number'' \<in> set (issues (validatePassword p)))) \<and>
   (p = [] \<longrightarrow> issues (validatePassword p) = [''Must be at least 6 characters''])"
proof -
  have lo: "list_ex isLower p \<longleftrightarrow> (\<exists>c \<in> set p. c \<in> set ''abcdefghijklmnopqrstuvwxyz'')"
    unfolding list_ex_iff isLower_iff ..
  have up: "list_ex isUpper p \<longleftrightarrow> (\<exists>c \<in> set p. c \<in> set ''ABCDEFGHIJKLMNOPQRSTUVWXYZ'')"
    unfolding list_ex_iff isUpper_iff ..
  have di: "list_ex isDigit p \<longleftrightarrow> (\<exists>c \<in> set p. c \<in> set ''0123456789'')"
    unfolding list_ex_iff isDigit_iff ..
  have ne: "p \<noteq> []" if "6 \<le> length p" using that by auto
  have 1: "valid (validatePassword p) \<longleftrightarrow>
      6 \<le> length p \<and> length p \<le> 128 \<and> list_ex isLower p \<and> list_ex isUpper p \<and> list_ex isDigit p"
    unfolding valid_validatePassword issues_validatePassword using ne by auto
  have 2: "\<not> valid (validatePassword p) \<longrightarrow> issues (validatePassword p) \<noteq> []"
    by (simp add: valid_validatePassword)
  have 3: "length p < 6 \<longleftrightarrow>
      ''Must be at least 6 characters'' \<in> set (issues (validatePassword p))"
    unfolding issues_validatePassword by simp
  have 4: "128 < length p \<longleftrightarrow>
      ''Must be under 128 characters'' \<in> set (issues (validatePassword p))"
    unfolding issues_validatePassword by simp
  have 5: "p \<noteq> [] \<Longrightarrow> \<not> list_ex isLower p \<longleftrightarrow>
      ''Must contain at least one lowercase letter'' \<in> set (issues (validatePassword p))"
    unfolding issues_validatePassword by simp
  have 6: "p \<noteq> [] \<Longrightarrow> \<not> list_ex isUpper p \<longleftrightarrow>
      ''Must contain at least one uppercase letter'' \<in> set (issues (validatePassword p))"
    unfolding issues_validatePassword by simp
  have 7: "p \<noteq> [] \<Longrightarrow> \<not> list_ex isDigit p \<longleftrightarrow>
      ''Must contain at least one number'' \<in> set (issues (validatePassword p))"
    unfolding issues_validatePassword by simp
  have 8: "p = [] \<longrightarrow> issues (validatePassword p) = [''Must be at least 6 characters'']"
    unfolding issues_validatePassword by simp
  from 1 2 3 4 5 6 7 8 show ?thesis
    unfolding lo up di by blast
qed

text \<open>
  A strong default passes, a weak default misses the uppercase letter, and the empty
  password gets the single length issue.
\<close>

theorem validatePassword_rules_witness:
  "valid (validatePassword ''Owner@123'') \<and>
   \<not> valid (validatePassword ''owner123'') \<and>
   issues (validatePassword ''owner123'') = [''Must contain at least one uppercase letter''] \<and>
   issues (validatePassword '''') = [''Must be at least 6 characters'']"
proof -
  have a: "valid (validatePassword ''Owner@123'')"
    using validatePassword_rules [of "''Owner@123''"] by simp
  have b: "issues (validatePassword ''owner123'') = [''Must contain at least one uppercase letter'']"
    by (simp add: issues_validatePassword isLower_def isUpper_def isDigit_def)
  have c: "\<not> valid (validatePassword ''owner123'')"
    using b by (simp add: valid_validatePassword)
  have d: "issues (validatePassword '''') = [''Must be at least 6 characters'']"
    using validatePassword_rules [of "''''"] by simp
  from a b c d show ?thesis by simp
qed

text \<open>
  The claim as first stated asks that every violated rule is named. The empty password
  has no lowercase letter, and the list of issues does not say so.
\<close>

theorem validatePassword_empty_counterexample:
  "\<not> valid (validatePassword '''') \<and>
   \<not> list_ex isLower '''' \<and>
   ''Must contain at least one lowercase letter'' \<notin> set (issues (validatePassword ''''))"
  by (simp add: valid_validatePassword issues_validatePassword)

section \<open>The audit log is capped and newest first\<close>

lemma getAuditLogs_auditLog:
  "audit_slot st \<noteq> Unparseable \<Longrightarrow>
   getAuditLogs (auditLog t ua a d u st) = take 200 (auditEntry t ua a d u # getAuditLogs st)"
  by (cases "audit_slot st") (simp_all add: auditLog_def getAuditLogs_def Let_def)

lemma audit_slot_auditLog:
  "audit_slot st \<noteq> Unparseable \<Longrightarrow> audit_slot (auditLog t ua a d u st) \<noteq> Unparseable"
  by (cases "audit_slot st") (simp_all add: auditLog_def Let_def)

lemma auditLog_Unparseable:
  "audit_slot st = Unparseable \<Longrightarrow> auditLog t ua a d u st = st"
  by (simp add: auditLog_def)

lemma length_getAuditLogs_auditLog:
  "length (getAuditLogs (auditLog t ua a d u st)) \<le> 200"
proof (cases "audit_slot st = Unparseable")
  case True
  then show ?thesis by (simp add: auditLog_Unparseable getAuditLogs_def)
next
  case False
  then show ?thesis by (simp add: getAuditLogs_auditLog)
qed

lemma take_append_take: "take n (xs @ take n ys) = take n (xs @ ys)"
  by (simp add: min_def)

lemma getAuditLogs_auditRun:
  "audit_slot st \<noteq> Unparseable \<Longrightarrow> cs \<noteq> [] \<Longrightarrow>
   getAuditLogs (auditRun cs st) = take 200 (rev (map entryOf cs) @ getAuditLogs st)"
proof (induction cs arbitrary: st)
  case Nil
  then show ?case by simp
next
  case (Cons c cs)
  let ?st1 = "auditLog (ac_isoNow c) (ac_userAgent c) (ac_action c) (ac_details c) (ac_username c) st"
  have ok: "audit_slot ?st1 \<noteq> Unparseable" using Cons.prems(1) by (rule audit_slot_auditLog)
  have l1: "getAuditLogs ?st1 = take 200 (entryOf c # getAuditLogs st)"
    using Cons.prems(1) by (simp add: getAuditLogs_auditLog entryOf_def)
  show ?case
  proof (cases "cs = []")
    case True
    then show ?thesis using l1 by simp
  next
    case False
    from Cons.IH [OF ok False] have
      "getAuditLogs (auditRun (c # cs) st) = take 200 (rev (map entryOf cs) @ getAuditLogs ?st1)"
      by simp
    also have "\<dots> = take 200 (rev (map entryOf cs) @ (entryOf c # getAuditLogs st))"
      unfolding l1 by (rule take_append_take)
    finally show ?thesis by simp
  qed
qed

text \<open>
  Claim C6. After every call of \<open>auditLog\<close> the log holds at most 200 entries. When the
  stored log is readable, the call puts the new entry at the head and keeps the first
  200 entries; when the log holds exactly 200 entries, the result is the new entry
  followed by the old log without its last, oldest, entry. Starting from a fresh
  installation, after any run of calls the log is the entries of the calls, most recent
  call first, cut to 200.
\<close>

theorem auditLog_capped:
  "length (getAuditLogs (auditLog t ua a d u st)) \<le> 200 \<and>
   (audit_slot st \<noteq> Unparseable \<longrightarrow>
      getAuditLogs (auditLog t ua a d u st) = take 200 (auditEntry t ua a d u # getAuditLogs st) \<and>
      hd (getAuditLogs (auditLog t ua a d u st)) = auditEntry t ua a d u) \<and>
   (length (getAuditLogs st) = 200 \<longrightarrow>
      getAuditLogs (auditLog t ua a d u st) = auditEntry t ua a d u # butlast (getAuditLogs st)) \<and>
   length (getAuditLogs (auditRun cs freshState)) \<le> 200 \<and>
   getAuditLogs (auditRun cs freshState) = take 200 (rev (map entryOf cs))"
proof -
  have 1: "length (getAuditLogs (auditLog t ua a d u st)) \<le> 200"
    by (rule length_getAuditLogs_auditLog)
  have 2: "getAuditLogs (auditLog t ua a d u st) = take 200 (auditEntry t ua a d u # getAuditLogs st)"
    if "audit_slot st \<noteq> Unparseable"
    using that by (rule getAuditLogs_auditLog)
  have 3: "hd (getAuditLogs (auditLog t ua a d u st)) = auditEntry t ua a d u"
    if "audit_slot st \<noteq> Unparseable"
    using 2 [OF that] by simp
  have 4: "getAuditLogs (auditLog t ua a d u st) = auditEntry t ua a d u # butlast (getAuditLogs st)"
    if len: "length (getAuditLogs st) = 200"
  proof -
    from len have ok: "audit_slot st \<noteq> Unparseable" by (auto simp: getAuditLogs_def)
    from len have "take 199 (getAuditLogs st) = butlast (getAuditLogs st)"
      by (simp add: butlast_conv_take)
    with 2 [OF ok] show ?thesis by simp
  qed
  have f: "audit_slot freshState \<noteq> Unparseable" "getAuditLogs freshState = []"
    by (simp_all add: freshState_def getAuditLogs_def)
  have 5: "getAuditLogs (auditRun cs freshState) = take 200 (rev (map entryOf cs))"
    using getAuditLogs_auditRun [OF f(1), of cs] f(2) by (cases "cs = []") simp_all
  have 6: "length (getAuditLogs (auditRun cs freshState)) \<le> 200"
    unfolding 5 by simp
  from 1 2 3 4 5 6 show ?thesis by blast
qed

lemma fullLog_facts:
  "audit_slot fullLog \<noteq> Unparseable" "getAuditLogs fullLog = replicate 200 oldEntry"
  by (simp_all add: fullLog_def freshState_def getAuditLogs_def)

text \<open>A log of 200 entries receives a 201st: the new entry leads and one old entry is gone.\<close>

theorem auditLog_capped_witness:
  "length (getAuditLogs fullLog) = 200 \<and>
   getAuditLogs (auditLog ''2024-01-02T00:00:00.000Z'' ''Mozilla/5.0'' ''LOGIN_FAILED''
                   ''Failed login attempt for role: owner'' (Some ''owner'') fullLog)
     = auditEntry ''2024-01-02T00:00:00.000Z'' ''Mozilla/5.0'' ''LOGIN_FAILED''
         ''Failed login attempt for role: owner'' (Some ''owner'') # replicate 199 oldEntry"
proof -
  have len: "length (getAuditLogs fullLog) = 200" by (simp add: fullLog_facts)
  have "butlast (getAuditLogs fullLog) = replicate 199 oldEntry"
    by (simp add: fullLog_facts butlast_conv_take)
  with auditLog_capped [of "''2024-01-02T00:00:00.000Z''" "''Mozilla/5.0''" "''LOGIN_FAILED''"
      "''Failed login attempt for role: owner''" "Some ''owner''" fullLog "[]"] len
  show ?thesis by simp
qed

section \<open>Session expiry\<close>

lemma createSession_slot:
  "session_slot (snd (createSession T rnd user st)) = Stored (fst (createSession T rnd user st))"
  by (simp add: createSession_def Let_def startInactivityMonitor_def stopInactivityMonitor_def)

lemma createSession_expiresAt:
  "ses_expiresAt (fst (createSession T rnd user st)) = T + 30 * 60 * 1000"
  by (simp add: createSession_def Let_def SESSION_TIMEOUT_MS_def)

lemma getSession_Stored:
  "session_slot st = Stored s \<Longrightarrow>
   getSession now st =
     (if now > ses_expiresAt s then (None, destroySession st) else (Some s, st))"
  by (simp add: getSession_def)

lemma destroySession_eq:
  "destroySession st = st\<lparr>session_slot := Absent, monitor_on := False\<rparr>"
  by (simp add: destroySession_def stopInactivityMonitor_def)

text \<open>
  Claim C4. \<open>createSession\<close> at clock value \<open>T\<close> stores the session it returns. As long
  as the store still holds that session, \<open>getSession\<close> at any clock value up to and
  including \<open>T\<close> plus 30 minutes returns it and changes nothing, and at any later clock
  value it returns none, removes the stored session and stops the monitor. With no
  stored session \<open>getSession\<close> returns none.
\<close>

theorem getSession_expiry:
  "session_slot (snd (createSession T rnd user st)) = Stored (fst (createSession T rnd user st)) \<and>
   (\<forall>st2. session_slot st2 = Stored (fst (createSession T rnd user st)) \<longrightarrow>
      (now \<le> T + 30 * 60 * 1000 \<longrightarrow>
         getSession now st2 = (Some (fst (createSession T rnd user st)), st2)) \<and>
      (T + 30 * 60 * 1000 < now \<longrightarrow>
         getSession now st2 = (None, st2\<lparr>session_slot := Absent, monitor_on := False\<rparr>))) \<and>
   (session_slot st = Absent \<longrightarrow> getSession now st = (None, st))"
proof -
  let ?s = "fst (createSession T rnd user st)"
  have 1: "session_slot (snd (createSession T rnd user st)) = Stored ?s"
    by (rule createSession_slot)
  have 2: "getSession now st2 = (Some ?s, st2)"
    if "session_slot st2 = Stored ?s" "now \<le> T + 30 * 60 * 1000" for st2
    using that by (simp add: getSession_Stored createSession_expiresAt)
  have 3: "getSession now st2 = (None, st2\<lparr>session_slot := Absent, monitor_on := False\<rparr>)"
    if "session_slot st2 = Stored ?s" "T + 30 * 60 * 1000 < now" for st2
    using that by (simp add: getSession_Stored createSession_expiresAt destroySession_eq)
  have 4: "getSession now st = (None, st)" if "session_slot st = Absent"
    using that by (simp add: getSession_def)
  from 1 2 3 4 show ?thesis by blast
qed

lemma loggedIn_slot: "session_slot loggedIn = Stored ownerSession"
  unfolding loggedIn_def ownerSession_def by (rule createSession_slot)

text \<open>
  The owner's session of clock value 0 is returned after 29 and after 30 minutes and is
  destroyed by the read after 31 minutes.
\<close>

theorem getSession_expiry_witness:
  "getSession (29 * 60 * 1000) loggedIn = (Some ownerSession, loggedIn) \<and>
   getSession (30 * 60 * 1000) loggedIn = (Some ownerSession, loggedIn) \<and>
   getSession (31 * 60 * 1000) loggedIn = (None, loggedIn\<lparr>session_slot := Absent, monitor_on := False\<rparr>) \<and>
   getSession (31 * 60 * 1000) freshState = (None, freshState)"
proof -
  have f: "session_slot freshState = Absent" by (simp add: freshState_def)
  have a: "getSession (29 * 60 * 1000) loggedIn = (Some ownerSession, loggedIn)"
    using getSession_expiry [of 0 "(replicate 32 171)" ownerInfo freshState "29 * 60 * 1000"] loggedIn_slot
    unfolding ownerSession_def [symmetric] by simp
  have b: "getSession (30 * 60 * 1000) loggedIn = (Some ownerSession, loggedIn)"
    using getSession_expiry [of 0 "(replicate 32 171)" ownerInfo freshState "30 * 60 * 1000"] loggedIn_slot
    unfolding ownerSession_def [symmetric] by simp
  have c: "getSession (31 * 60 * 1000) loggedIn =
             (None, loggedIn\<lparr>session_slot := Absent, monitor_on := False\<rparr>)"
    using getSession_expiry [of 0 "(replicate 32 171)" ownerInfo freshState "31 * 60 * 1000"] loggedIn_slot
    unfolding ownerSession_def [symmetric] by simp
  have d: "getSession (31 * 60 * 1000) freshState = (None, freshState)"
    using getSession_expiry [of 0 "(replicate 32 171)" ownerInfo freshState "31 * 60 * 1000"] f
    by simp
  from a b c d show ?thesis by simp
qed

section \<open>Session refresh\<close>

lemma refreshSession_valid:
  "session_slot st = Stored s \<Longrightarrow> now \<le> ses_expiresAt s \<Longrightarrow>
   refreshSession now st =
     (Some (s\<lparr>ses_lastActivity := now, ses_expiresAt := now + 30 * 60 * 1000\<rparr>),
      st\<lparr>session_slot := Stored (s\<lparr>ses_lastActivity := now,
                                     ses_expiresAt := now + 30 * 60 * 1000\<rparr>)\<rparr>)"
  by (simp add: refreshSession_def getSession_Stored Let_def SESSION_TIMEOUT_MS_def)

lemma refreshSession_expired:
  "session_slot st = Stored s \<Longrightarrow> ses_expiresAt s < now \<Longrightarrow>
   refreshSession now st = (None, st\<lparr>session_slot := Absent, monitor_on := False\<rparr>)"
  by (simp add: refreshSession_def getSession_Stored destroySession_eq)

lemma refreshSession_none:
  "session_slot st = Absent \<or> session_slot st = Unparseable \<Longrightarrow>
   refreshSession now st = (None, st)"
  by (auto simp: refreshSession_def getSession_def)

text \<open>
  Claim C8, as amended. When the store holds a session that has not expired at clock
  value \<open>now\<close>, \<open>refreshSession\<close> returns and stores that session with \<open>lastActivity\<close>
  set to \<open>now\<close> and \<open>expiresAt\<close> set to \<open>now\<close> plus 30 minutes. When no session is stored,
  or the stored text does not parse, it returns none and changes nothing. When the
  stored session has expired it returns none, removes the stored session and stops the
  monitor. Whenever it returns none it has written no session: the session key is
  absent afterwards or the state is as before.
\<close>

theorem refreshSession_extends:
  "(session_slot st = Stored s \<and> now \<le> ses_expiresAt s \<longrightarrow>
      refreshSession now st =
        (Some (s\<lparr>ses_lastActivity := now, ses_expiresAt := now + 30 * 60 * 1000\<rparr>),
         st\<lparr>session_slot := Stored (s\<lparr>ses_lastActivity := now,
                                        ses_expiresAt := now + 30 * 60 * 1000\<rparr>)\<rparr>)) \<and>
   (session_slot st = Absent \<or> session_slot st = Unparseable \<longrightarrow>
      refreshSession now st = (None, st)) \<and>
   (session_slot st = Stored s \<and> ses_expiresAt s < now \<longrightarrow>
      refreshSession now st = (None, st\<lparr>session_slot := Absent, monitor_on := False\<rparr>)) \<and>
   (fst (refreshSession now st) = None \<longrightarrow>
      session_slot (snd (refreshSession now st)) = Absent \<or>
      snd (refreshSession now st) = st)"
proof -
  have 4: "session_slot (snd (refreshSession now st)) = Absent \<or> snd (refreshSession now st) = st"
    if n: "fst (refreshSession now st) = None"
  proof (cases "session_slot st")
    case Absent
    then show ?thesis by (simp add: refreshSession_none)
  next
    case Unparseable
    then show ?thesis by (simp add: refreshSession_none)
  next
    case (Stored s')
    show ?thesis
    proof (cases "now \<le> ses_expiresAt s'")
      case True
      with Stored n show ?thesis by (simp add: refreshSession_valid)
    next
      case False
      with Stored show ?thesis by (simp add: refreshSession_expired)
    qed
  qed
  from refreshSession_valid [of st s now] refreshSession_none [of st now]
    refreshSession_expired [of st s now] 4
  show ?thesis by blast
qed

text \<open>
  The owner's session of clock value 0, refreshed after 10 minutes, expires at 40
  minutes and is still returned then; a refresh without a session and a refresh of the
  expired session return none.
\<close>

theorem refreshSession_extends_witness:
  "fst (refreshSession (10 * 60 * 1000) loggedIn) =
     Some (ownerSession\<lparr>ses_lastActivity := 10 * 60 * 1000, ses_expiresAt := 40 * 60 * 1000\<rparr>) \<and>
   fst (getSession (40 * 60 * 1000) (snd (refreshSession (10 * 60 * 1000) loggedIn))) =
     Some (ownerSession\<lparr>ses_lastActivity := 10 * 60 * 1000, ses_expiresAt := 40 * 60 * 1000\<rparr>) \<and>
   refreshSession (10 * 60 * 1000) freshState = (None, freshState) \<and>
   refreshSession (31 * 60 * 1000) loggedIn =
     (None, loggedIn\<lparr>session_slot := Absent, monitor_on := False\<rparr>)"
proof -
  have e: "ses_expiresAt ownerSession = 30 * 60 * 1000"
    unfolding ownerSession_def by (simp add: createSession_expiresAt)
  have f: "session_slot freshState = Absent" by (simp add: freshState_def)
  have a: "refreshSession (10 * 60 * 1000) loggedIn =
     (Some (ownerSession\<lparr>ses_lastActivity := 10 * 60 * 1000, ses_expiresAt := 40 * 60 * 1000\<rparr>),
      loggedIn\<lparr>session_slot := Stored (ownerSession\<lparr>ses_lastActivity := 10 * 60 * 1000,
                                            ses_expiresAt := 40 * 60 * 1000\<rparr>)\<rparr>)"
    using refreshSession_extends [of loggedIn ownerSession "10 * 60 * 1000"] loggedIn_slot e
    by simp
  have b: "fst (getSession (40 * 60 * 1000) (snd (refreshSession (10 * 60 * 1000) loggedIn))) =
     Some (ownerSession\<lparr>ses_lastActivity := 10 * 60 * 1000, ses_expiresAt := 40 * 60 * 1000\<rparr>)"
    unfolding a by (simp add: getSession_def)
  have c: "refreshSession (10 * 60 * 1000) freshState = (None, freshState)"
    using refreshSession_extends [of freshState ownerSession "10 * 60 * 1000"] f by simp
  have d: "refreshSession (31 * 60 * 1000) loggedIn =
     (None, loggedIn\<lparr>session_slot := Absent, monitor_on := False\<rparr>)"
    using refreshSession_extends [of loggedIn ownerSession "31 * 60 * 1000"] loggedIn_slot e
    by simp
  from a b c d show ?thesis by simp
qed

text \<open>
  The claim as first stated makes \<open>refreshSession\<close> a no-op whenever there is no valid
  session. After 31 minutes the owner's session is not valid, and \<open>refreshSession\<close>
  removes it from the store and stops the monitor.
\<close>

theorem refreshSession_noop_counterexample:
  "fst (getSession (31 * 60 * 1000) loggedIn) = None \<and>
   fst (refreshSession (31 * 60 * 1000) loggedIn) = None \<and>
   session_slot loggedIn = Stored ownerSession \<and>
   session_slot (snd (refreshSession (31 * 60 * 1000) loggedIn)) = Absent \<and>
   monitor_on loggedIn \<and>
   \<not> monitor_on (snd (refreshSession (31 * 60 * 1000) loggedIn)) \<and>
   snd (refreshSession (31 * 60 * 1000) loggedIn) \<noteq> loggedIn"
proof -
  have e: "ses_expiresAt ownerSession = 30 * 60 * 1000"
    unfolding ownerSession_def by (simp add: createSession_expiresAt)
  have m: "monitor_on loggedIn"
    by (simp add: loggedIn_def createSession_def Let_def startInactivityMonitor_def)
  have r: "refreshSession (31 * 60 * 1000) loggedIn =
     (None, loggedIn\<lparr>session_slot := Absent, monitor_on := False\<rparr>)"
    using loggedIn_slot e by (simp add: refreshSession_expired)
  have g: "fst (getSession (31 * 60 * 1000) loggedIn) = None"
    using loggedIn_slot e by (simp add: getSession_Stored)
  have ne: "loggedIn\<lparr>session_slot := Absent, monitor_on := False\<rparr> \<noteq> loggedIn"
  proof
    assume "loggedIn\<lparr>session_slot := Absent, monitor_on := False\<rparr> = loggedIn"
    then have "monitor_on (loggedIn\<lparr>session_slot := Absent, monitor_on := False\<rparr>) =
               monitor_on loggedIn"
      by (rule arg_cong)
    with m show False by simp
  qed
  from r g m ne loggedIn_slot show ?thesis by simp
qed

section \<open>Hashing and verifying a password\<close>

lemma hexDigit_inj: "a < 16 \<Longrightarrow> b < 16 \<Longrightarrow> hexDigit a = hexDigit b \<Longrightarrow> a = b"
proof -
  assume a: "a < 16" and b: "b < 16" and e: "hexDigit a = hexDigit b"
  have d: "distinct ''0123456789abcdef''" by simp
  have l: "length ''0123456789abcdef'' = 16" by simp
  from e have "''0123456789abcdef'' ! a = ''0123456789abcdef'' ! b"
    by (simp only: hexDigit_def)
  with d a b l show "a = b" by (simp only: nth_eq_iff_index_eq)
qed

lemma hexByte: "padStart2 (toString16 b) = [hexDigit (unat b div 16), hexDigit (unat b mod 16)]"
  by (simp add: padStart2_def toString16_def hexDigit_def)

lemma hexByte_inj:
  assumes "padStart2 (toString16 a) = padStart2 (toString16 b)"
  shows "a = b"
proof -
  have la: "unat a div 16 < 16" "unat a mod 16 < 16"
    using unsigned_less [of a, where ?'a = nat] by simp_all
  have lb: "unat b div 16 < 16" "unat b mod 16 < 16"
    using unsigned_less [of b, where ?'a = nat] by simp_all
  from assms have h: "hexDigit (unat a div 16) = hexDigit (unat b div 16)"
    and l: "hexDigit (unat a mod 16) = hexDigit (unat b mod 16)"
    by (simp_all add: hexByte)
  have "unat a div 16 = unat b div 16"
    using la(1) lb(1) h by (rule hexDigit_inj)
  moreover have "unat a mod 16 = unat b mod 16"
    using _ _ l by (rule hexDigit_inj) simp_all
  ultimately have "unat a div 16 = unat b div 16" "unat a mod 16 = unat b mod 16" .
  then have "unat a = unat b"
    by (metis div_mult_mod_eq)
  then show ?thesis by (simp add: word_unat_eq_iff)
qed

lemma bytesToHex_Cons: "bytesToHex (b # bs) = padStart2 (toString16 b) @ bytesToHex bs"
  by (simp add: bytesToHex_def)

lemma bytesToHex_inj: "bytesToHex xs = bytesToHex ys \<Longrightarrow> xs = ys"
proof (induction xs arbitrary: ys)
  case Nil
  then show ?case by (cases ys) (simp_all add: bytesToHex_def hexByte)
next
  case (Cons x xs)
  show ?case
  proof (cases ys)
    case Nil
    with Cons.prems show ?thesis by (simp add: bytesToHex_def hexByte)
  next
    case (Cons y ys')
    with Cons.prems have e: "padStart2 (toString16 x) @ bytesToHex xs =
                             padStart2 (toString16 y) @ bytesToHex ys'"
      by (simp add: bytesToHex_Cons)
    have "length (padStart2 (toString16 x)) = length (padStart2 (toString16 y))"
      by (simp add: hexByte)
    with e have "padStart2 (toString16 x) = padStart2 (toString16 y)"
      and "bytesToHex xs = bytesToHex ys'"
      by simp_all
    with Cons.IH [of ys'] hexByte_inj [of x y] Cons show ?thesis by simp
  qed
qed

subsection \<open>The text encoder separates well-formed strings\<close>

lemma unat16: "unat (u :: 16 word) < 65536"
  using unsigned_less [of u, where ?'a = nat] by simp

lemma codePoints_bound: "c \<in> set (codePoints s) \<Longrightarrow> c < 0x110000"
proof (induction s rule: codePoints.induct)
  case 1
  then show ?case by simp
next
  case (2 u)
  then show ?case using unat16 [of u] by (auto split: if_splits)
next
  case (3 u v r)
  then show ?case
    using unat16 [of u] unat16 [of v]
    by (auto simp: isHighSurrogate_def isLowSurrogate_def split: if_splits)
qed

lemma utf8_ne: "utf8 c \<noteq> []"
  by (simp add: utf8_def)

lemma utf8_1: "c < 0x80 \<Longrightarrow> utf8 c = [c]"
  by (simp add: utf8_def)

lemma utf8_2: "0x80 \<le> c \<Longrightarrow> c < 0x800 \<Longrightarrow> utf8 c = [0xC0 + c div 64, 0x80 + c mod 64]"
  by (simp add: utf8_def)

lemma utf8_3:
  "0x800 \<le> c \<Longrightarrow> c < 0x10000 \<Longrightarrow>
   utf8 c = [0xE0 + c div 4096, 0x80 + c div 64 mod 64, 0x80 + c mod 64]"
  by (simp add: utf8_def)

lemma utf8_4:
  "0x10000 \<le> c \<Longrightarrow>
   utf8 c = [0xF0 + c div 262144, 0x80 + c div 4096 mod 64, 0x80 + c div 64 mod 64,
             0x80 + c mod 64]"
  by (simp add: utf8_def)

lemma div_bounds:
  "c < 0x800 \<Longrightarrow> c div 64 < (32::nat)"
  "c < 0x10000 \<Longrightarrow> c div 4096 < (16::nat)"
  "c < 0x110000 \<Longrightarrow> c div 262144 < (5::nat)"
  by (simp_all add: less_mult_imp_div_less)

lemma mod64: "(c::nat) mod 64 < 64"
  by simp

lemma utf8_byte: "c < 0x110000 \<Longrightarrow> b \<in> set (utf8 c) \<Longrightarrow> b < 256"
proof -
  assume c: "c < 0x110000" and b: "b \<in> set (utf8 c)"
  consider (a) "c < 0x80" | (b) "0x80 \<le> c" "c < 0x800" | (c) "0x800 \<le> c" "c < 0x10000"
    | (d) "0x10000 \<le> c"
    by linarith
  then show ?thesis
  proof cases
    case a
    with b show ?thesis by (simp add: utf8_1)
  next
    case b
    with \<open>b \<in> set (utf8 c)\<close> div_bounds(1) [of c] mod64 [of c] show ?thesis
      by (auto simp: utf8_2)
  next
    case c
    with \<open>b \<in> set (utf8 c)\<close> div_bounds(2) [of c] mod64 [of c] mod64 [of "c div 64"]
    show ?thesis by (auto simp: utf8_3)
  next
    case d
    with \<open>b \<in> set (utf8 c)\<close> div_bounds(3) [OF \<open>c < 0x110000\<close>] mod64 [of c]
      mod64 [of "c div 64"] mod64 [of "c div 4096"]
    show ?thesis by (auto simp: utf8_4)
  qed
qed

lemma recombine64: "c div 64 = d div 64 \<Longrightarrow> c mod 64 = d mod 64 \<Longrightarrow> c = (d::nat)"
  by (metis div_mult_mod_eq)

lemma div4096: "(c::nat) div 4096 = c div 64 div 64"
  by (simp add: div_mult2_eq [symmetric])

lemma div262144: "(c::nat) div 262144 = c div 64 div 64 div 64"
  by (simp add: div_mult2_eq [symmetric])

lemma utf8_hd:
  "c < 0x80 \<Longrightarrow> hd (utf8 c) < 0x80"
  "0x80 \<le> c \<Longrightarrow> c < 0x800 \<Longrightarrow> 0xC0 \<le> hd (utf8 c) \<and> hd (utf8 c) < 0xE0"
  "0x800 \<le> c \<Longrightarrow> c < 0x10000 \<Longrightarrow> 0xE0 \<le> hd (utf8 c) \<and> hd (utf8 c) < 0xF0"
  "0x10000 \<le> c \<Longrightarrow> 0xF0 \<le> hd (utf8 c)"
  using div_bounds(1) [of c] div_bounds(2) [of c]
  by (simp_all add: utf8_1 utf8_2 utf8_3 utf8_4)

lemma utf8_same_class:
  assumes e: "utf8 c @ xs = utf8 d @ ys"
  shows "c < 0x80 \<Longrightarrow> d < 0x80 \<Longrightarrow> c = d"
    and "0x80 \<le> c \<Longrightarrow> c < 0x800 \<Longrightarrow> 0x80 \<le> d \<Longrightarrow> d < 0x800 \<Longrightarrow> c = d"
    and "0x800 \<le> c \<Longrightarrow> c < 0x10000 \<Longrightarrow> 0x800 \<le> d \<Longrightarrow> d < 0x10000 \<Longrightarrow> c = d"
    and "0x10000 \<le> c \<Longrightarrow> 0x10000 \<le> d \<Longrightarrow> c = d"
proof -
  show "c < 0x80 \<Longrightarrow> d < 0x80 \<Longrightarrow> c = d"
    using e by (simp add: utf8_1)
  show "0x80 \<le> c \<Longrightarrow> c < 0x800 \<Longrightarrow> 0x80 \<le> d \<Longrightarrow> d < 0x800 \<Longrightarrow> c = d"
    using e by (simp add: utf8_2 recombine64)
  show "c = d" if "0x800 \<le> c" "c < 0x10000" "0x800 \<le> d" "d < 0x10000"
  proof -
    from e that have "c div 64 div 64 = d div 64 div 64" "c div 64 mod 64 = d div 64 mod 64"
      "c mod 64 = d mod 64"
      by (simp_all add: utf8_3 div4096)
    then show ?thesis by (blast intro: recombine64)
  qed
  show "c = d" if "0x10000 \<le> c" "0x10000 \<le> d"
  proof -
    from e that have "c div 64 div 64 div 64 = d div 64 div 64 div 64"
      "c div 64 div 64 mod 64 = d div 64 div 64 mod 64"
      "c div 64 mod 64 = d div 64 mod 64" "c mod 64 = d mod 64"
      by (simp_all add: utf8_4 div4096 div262144)
    then show ?thesis by (blast intro: recombine64)
  qed
qed

lemma utf8_prefix_inj:
  assumes e: "utf8 c @ xs = utf8 d @ ys"
  shows "c = d"
proof -
  from e have h: "hd (utf8 c) = hd (utf8 d)"
    using utf8_ne [of c] utf8_ne [of d] by (metis hd_append2)
  consider (a) "c < 0x80" | (b) "0x80 \<le> c" "c < 0x800" | (c) "0x800 \<le> c" "c < 0x10000"
    | (d) "0x10000 \<le> c"
    by linarith
  then show ?thesis
  proof cases
    case a
    with h utf8_hd [of d] utf8_hd(1) [of c] have "d < 0x80" by (cases "d < 0x80"; cases "d < 0x800"; cases "d < 0x10000") auto
    with a show ?thesis using utf8_same_class(1) [OF e] by simp
  next
    case b
    with h utf8_hd [of d] utf8_hd(2) [of c] have "0x80 \<le> d \<and> d < 0x800"
      by (cases "d < 0x80"; cases "d < 0x800"; cases "d < 0x10000") auto
    with b show ?thesis using utf8_same_class(2) [OF e] by simp
  next
    case c
    with h utf8_hd [of d] utf8_hd(3) [of c] have "0x800 \<le> d \<and> d < 0x10000"
      by (cases "d < 0x80"; cases "d < 0x800"; cases "d < 0x10000") auto
    with c show ?thesis using utf8_same_class(3) [OF e] by simp
  next
    case d
    with h utf8_hd [of d] utf8_hd(4) [of c] have "0x10000 \<le> d"
      by (cases "d < 0x80"; cases "d < 0x800"; cases "d < 0x10000") auto
    with d show ?thesis using utf8_same_class(4) [OF e] by simp
  qed
qed

lemma concat_utf8_inj:
  "concat (map utf8 cs) = concat (map utf8 ds) \<Longrightarrow> cs = ds"
proof (induction cs arbitrary: ds)
  case Nil
  then show ?case using utf8_ne by (cases ds) auto
next
  case (Cons c cs)
  show ?case
  proof (cases ds)
    case Nil
    with Cons.prems show ?thesis using utf8_ne by auto
  next
    case (Cons d ds')
    with Cons.prems have e: "utf8 c @ concat (map utf8 cs) = utf8 d @ concat (map utf8 ds')"
      by simp
    then have "c = d" by (rule utf8_prefix_inj)
    with e Cons.IH [of ds'] Cons show ?thesis by simp
  qed
qed

lemma map_byte_inj:
  "\<forall>b \<in> set xs. b < 256 \<Longrightarrow> \<forall>b \<in> set ys. b < 256 \<Longrightarrow>
   map (word_of_nat :: nat \<Rightarrow> byte) xs = map word_of_nat ys \<Longrightarrow> xs = ys"
proof -
  assume x: "\<forall>b \<in> set xs. b < 256" and y: "\<forall>b \<in> set ys. b < 256"
    and e: "map (word_of_nat :: nat \<Rightarrow> byte) xs = map word_of_nat ys"
  have u: "map (unat :: byte \<Rightarrow> nat) (map word_of_nat zs) = zs" if "\<forall>b \<in> set zs. b < 256" for zs
    using that by (induction zs) (simp_all add: unat_of_nat)
  from e have "map (unat :: byte \<Rightarrow> nat) (map word_of_nat xs) =
               map (unat :: byte \<Rightarrow> nat) (map word_of_nat ys)"
    by (rule arg_cong)
  with u [OF x] u [OF y] show "xs = ys" by simp
qed

lemma encoded_bytes: "b \<in> set (concat (map utf8 (codePoints s))) \<Longrightarrow> b < 256"
  using codePoints_bound utf8_byte by auto

lemma textEncode_eq_iff: "textEncode s = textEncode t \<longleftrightarrow> codePoints s = codePoints t"
proof
  assume "textEncode s = textEncode t"
  then have "concat (map utf8 (codePoints s)) = concat (map utf8 (codePoints t))"
    unfolding textEncode_def using encoded_bytes by (intro map_byte_inj) blast+
  then show "codePoints s = codePoints t" by (rule concat_utf8_inj)
next
  assume "codePoints s = codePoints t"
  then show "textEncode s = textEncode t" by (simp add: textEncode_def)
qed

lemma codePoints_Nil: "codePoints t = [] \<longleftrightarrow> t = []"
  by (cases t rule: codePoints.cases) (auto split: if_splits)

lemma non_surrogate_cases:
  "\<not> isHighSurrogate u \<Longrightarrow> \<not> isLowSurrogate u \<Longrightarrow> codePoints (u # r) = unat u # codePoints r"
  by (cases r) simp_all

lemma pair_cases:
  "isHighSurrogate u \<Longrightarrow> isLowSurrogate v \<Longrightarrow>
   codePoints (u # v # r) = (0x10000 + (unat u - 0xD800) * 0x400 + (unat v - 0xDC00)) # codePoints r"
  by simp

lemma wellFormed_cases:
  assumes "isWellFormed s" "s \<noteq> []"
  obtains (single) u r where "s = u # r" "\<not> isHighSurrogate u" "\<not> isLowSurrogate u" "isWellFormed r"
  | (pair) u v r where "s = u # v # r" "isHighSurrogate u" "isLowSurrogate v" "isWellFormed r"
proof (cases s)
  case Nil
  with assms show ?thesis by simp
next
  case (Cons u r)
  show ?thesis
  proof (cases r)
    case Nil
    with Cons assms single show ?thesis by simp
  next
    case (Cons v r')
    with \<open>s = u # r\<close> assms single [of u r] pair [of u v r'] show ?thesis
      by (cases "isHighSurrogate u") simp_all
  qed
qed

lemma pair_value:
  assumes "isHighSurrogate u" "isLowSurrogate v"
  shows "0x10000 \<le> 0x10000 + (unat u - 0xD800) * 0x400 + (unat v - 0xDC00)"
  by simp

lemma pair_inj:
  assumes "isHighSurrogate u" "isLowSurrogate v" "isHighSurrogate u'" "isLowSurrogate v'"
    and e: "(0x10000::nat) + (unat u - 0xD800) * 0x400 + (unat v - 0xDC00) =
            0x10000 + (unat u' - 0xD800) * 0x400 + (unat v' - 0xDC00)"
  shows "u = u' \<and> v = v'"
proof -
  let ?a = "unat u - 0xD800" and ?b = "unat v - 0xDC00"
  let ?a' = "unat u' - 0xD800" and ?b' = "unat v' - 0xDC00"
  from assms have b: "?b < 1024" "?b' < 1024"
    unfolding isLowSurrogate_def by linarith+
  from e have e': "?a * 1024 + ?b = ?a' * 1024 + ?b'" by simp
  then have "(?a * 1024 + ?b) div 1024 = (?a' * 1024 + ?b') div 1024" by simp
  with b have a: "?a = ?a'" by simp
  with e' have "?b = ?b'" by simp
  with a assms have "unat u = unat u' \<and> unat v = unat v'"
    unfolding isHighSurrogate_def isLowSurrogate_def by linarith
  then show ?thesis by (simp add: word_unat_eq_iff)
qed

lemma codePoints_inj:
  "isWellFormed s \<Longrightarrow> isWellFormed t \<Longrightarrow> codePoints s = codePoints t \<Longrightarrow> s = t"
proof (induction "length s" arbitrary: s t rule: less_induct)
  case less
  show ?case
  proof (cases "s = []")
    case True
    with less.prems(3) show ?thesis using codePoints_Nil [of t] by simp
  next
    case False
    have tne: "t \<noteq> []"
      using False less.prems(3) codePoints_Nil [of s] codePoints_Nil [of t] by auto
    from less.prems(1) False show ?thesis
    proof (cases rule: wellFormed_cases)
      case (single u r)
      from less.prems(2) tne show ?thesis
      proof (cases rule: wellFormed_cases)
        case (single u' r')
        with \<open>s = u # r\<close> \<open>\<not> isHighSurrogate u\<close> \<open>\<not> isLowSurrogate u\<close> less.prems(3)
        have "unat u = unat u'" "codePoints r = codePoints r'"
          by (simp_all add: non_surrogate_cases)
        moreover have "length r < length s" using \<open>s = u # r\<close> by simp
        ultimately show ?thesis
          using less.hyps [of r r'] \<open>isWellFormed r\<close> \<open>isWellFormed r'\<close> \<open>s = u # r\<close> \<open>t = u' # r'\<close>
          by (simp add: word_unat_eq_iff)
      next
        case (pair u' v' r')
        with \<open>s = u # r\<close> \<open>\<not> isHighSurrogate u\<close> \<open>\<not> isLowSurrogate u\<close> less.prems(3)
        have "unat u = 0x10000 + (unat u' - 0xD800) * 0x400 + (unat v' - 0xDC00)"
          by (simp add: non_surrogate_cases)
        with unat16 [of u] show ?thesis by simp
      qed
    next
      case (pair u v r)
      from less.prems(2) tne show ?thesis
      proof (cases rule: wellFormed_cases)
        case (single u' r')
        with \<open>s = u # v # r\<close> \<open>isHighSurrogate u\<close> \<open>isLowSurrogate v\<close> less.prems(3)
        have "unat u' = 0x10000 + (unat u - 0xD800) * 0x400 + (unat v - 0xDC00)"
          by (simp add: non_surrogate_cases)
        with unat16 [of u'] show ?thesis by simp
      next
        case pair': (pair u' v' r')
        with \<open>s = u # v # r\<close> \<open>isHighSurrogate u\<close> \<open>isLowSurrogate v\<close> less.prems(3)
        have e: "(0x10000::nat) + (unat u - 0xD800) * 0x400 + (unat v - 0xDC00) =
            0x10000 + (unat u' - 0xD800) * 0x400 + (unat v' - 0xDC00)"
          and c: "codePoints r = codePoints r'"
          by simp_all
        from pair_inj [OF \<open>isHighSurrogate u\<close> \<open>isLowSurrogate v\<close> pair'(2) pair'(3) e]
        have "u = u'" "v = v'" by simp_all
        moreover have "length r < length s" using \<open>s = u # v # r\<close> by simp
        ultimately show ?thesis
          using less.hyps [of r r'] c \<open>isWellFormed r\<close> \<open>isWellFormed r'\<close> \<open>s = u # v # r\<close>
            \<open>t = u' # v' # r'\<close>
          by simp
      qed
    qed
  qed
qed

lemma textEncode_inj:
  "isWellFormed s \<Longrightarrow> isWellFormed t \<Longrightarrow> textEncode s = textEncode t \<Longrightarrow> s = t"
  by (simp add: textEncode_eq_iff codePoints_inj)

lemma js_unit: "unat (word_of_nat (of_char c) :: 16 word) = of_char c"
proof -
  have "(of_char c :: nat) < 256"
    by (metis of_char_mod_256 mod_less_divisor zero_less_numeral)
  then have "(of_char c :: nat) < 65536" by linarith
  then show ?thesis by (simp add: unat_of_nat)
qed

lemma js_not_surrogate:
  "\<not> isHighSurrogate (word_of_nat (of_char c))" "\<not> isLowSurrogate (word_of_nat (of_char c))"
proof -
  have "(of_char c :: nat) < 256"
    by (metis of_char_mod_256 mod_less_divisor zero_less_numeral)
  then show "\<not> isHighSurrogate (word_of_nat (of_char c))"
    "\<not> isLowSurrogate (word_of_nat (of_char c))"
    unfolding isHighSurrogate_def isLowSurrogate_def js_unit by linarith+
qed

lemma js_simps: "js [] = []" "js (c # s) = word_of_nat (of_char c) # js s" "js (a @ b) = js a @ js b"
  by (simp_all add: js_def)

lemma js_inj: "js a = js b \<Longrightarrow> a = b"
proof -
  assume "js a = js b"
  then have "map (unat :: 16 word \<Rightarrow> nat) (js a) = map unat (js b)" by simp
  then have "map (of_char :: char \<Rightarrow> nat) a = map of_char b"
    by (simp add: js_def js_unit comp_def)
  then show "a = b" using inj_of_char [where ?'a = nat] by simp
qed

lemma wellFormed_js: "isWellFormed (js s)"
  by (induction s rule: induct_list012) (simp_all add: js_simps js_not_surrogate)

lemma textEncode_js_eq: "textEncode (js a) = textEncode (js b) \<longleftrightarrow> a = b"
  using textEncode_inj [OF wellFormed_js wellFormed_js, of a b] js_inj [of a b] by auto

subsection \<open>Verification against a hash\<close>

lemma hashPassword_salted:
  "salt \<noteq> [] \<Longrightarrow>
   hashPassword sha256 rnd password (Some salt) =
     \<lparr>hr_hash = bytesToHex (sha256 (textEncode (salt @ password))), hr_salt = salt\<rparr>"
  by (simp add: hashPassword_def)

lemma hashPassword_unsalted:
  "\<not> truthy salt \<Longrightarrow>
   hashPassword sha256 rnd password salt =
     \<lparr>hr_hash = bytesToHex (sha256 (textEncode (js (generateSalt rnd) @ password))),
      hr_salt = js (generateSalt rnd)\<rparr>"
  by (cases salt) (simp_all add: hashPassword_def Let_def)

text \<open>
  Claim C3, as amended. For every password and every non-empty salt, \<open>verifyPassword\<close>
  accepts the password against the hash that \<open>hashPassword\<close> made of it with that salt.
  For any candidate \<open>p'\<close> it answers exactly whether the SHA-256 digests of the encoded
  bytes of \<open>salt @ p'\<close> and of \<open>salt @ password\<close> are equal. So it rejects every other
  password \<open>p'\<close> for which the two salted strings are well-formed, that is without a
  surrogate outside a pair, and SHA-256 does not collide on their two encodings.
\<close>

theorem verifyPassword_hashPassword:
  "salt \<noteq> [] \<longrightarrow>
     verifyPassword sha256 rnd2 password
       (hr_hash (hashPassword sha256 rnd1 password (Some salt))) (Some salt) \<and>
     (verifyPassword sha256 rnd2 p'
        (hr_hash (hashPassword sha256 rnd1 password (Some salt))) (Some salt)
      \<longleftrightarrow> sha256 (textEncode (salt @ p')) = sha256 (textEncode (salt @ password))) \<and>
     (p' \<noteq> password \<and> isWellFormed (salt @ p') \<and> isWellFormed (salt @ password) \<and>
      inj_on sha256 {textEncode (salt @ p'), textEncode (salt @ password)} \<longrightarrow>
        \<not> verifyPassword sha256 rnd2 p'
            (hr_hash (hashPassword sha256 rnd1 password (Some salt))) (Some salt))"
proof
  assume s: "salt \<noteq> []"
  have v: "verifyPassword sha256 rnd2 q
             (hr_hash (hashPassword sha256 rnd1 password (Some salt))) (Some salt)
           \<longleftrightarrow> sha256 (textEncode (salt @ q)) = sha256 (textEncode (salt @ password))" for q
    using s bytesToHex_inj [of "sha256 (textEncode (salt @ q))"
        "sha256 (textEncode (salt @ password))"]
    by (auto simp: verifyPassword_def hashPassword_salted)
  have c: "sha256 (textEncode (salt @ p')) \<noteq> sha256 (textEncode (salt @ password))"
    if n: "p' \<noteq> password" and w: "isWellFormed (salt @ p')" "isWellFormed (salt @ password)"
      and i: "inj_on sha256 {textEncode (salt @ p'), textEncode (salt @ password)}"
  proof
    assume e: "sha256 (textEncode (salt @ p')) = sha256 (textEncode (salt @ password))"
    from i e have "textEncode (salt @ p') = textEncode (salt @ password)"
      by (rule inj_onD) simp_all
    with w have "salt @ p' = salt @ password" by (rule textEncode_inj)
    with n show False by simp
  qed
  from v [of password] v [of p'] c
  show "verifyPassword sha256 rnd2 password
       (hr_hash (hashPassword sha256 rnd1 password (Some salt))) (Some salt) \<and>
     (verifyPassword sha256 rnd2 p'
        (hr_hash (hashPassword sha256 rnd1 password (Some salt))) (Some salt)
      \<longleftrightarrow> sha256 (textEncode (salt @ p')) = sha256 (textEncode (salt @ password))) \<and>
     (p' \<noteq> password \<and> isWellFormed (salt @ p') \<and> isWellFormed (salt @ password) \<and>
      inj_on sha256 {textEncode (salt @ p'), textEncode (salt @ password)} \<longrightarrow>
        \<not> verifyPassword sha256 rnd2 p'
            (hr_hash (hashPassword sha256 rnd1 password (Some salt))) (Some salt))"
    by blast
qed

lemma inj_plainDigest: "inj plainDigest"
  by (rule injI) (simp add: plainDigest_def)

text \<open>With the salt \<open>0a1b\<close> the right password is accepted and a wrong one is rejected.\<close>

theorem verifyPassword_hashPassword_witness:
  "verifyPassword plainDigest saltBytesB (js ''Owner@123'')
     (hr_hash (hashPassword plainDigest saltBytesA (js ''Owner@123'') (Some (js ''0a1b''))))
     (Some (js ''0a1b'')) \<and>
   \<not> verifyPassword plainDigest saltBytesB (js ''owner123'')
     (hr_hash (hashPassword plainDigest saltBytesA (js ''Owner@123'') (Some (js ''0a1b''))))
     (Some (js ''0a1b''))"
proof -
  have i: "inj_on plainDigest {textEncode (js ''0a1b'' @ js ''owner123''),
                               textEncode (js ''0a1b'' @ js ''Owner@123'')}"
    using inj_plainDigest by (rule inj_on_subset) simp
  have n: "js ''owner123'' \<noteq> js ''Owner@123''" "js ''0a1b'' \<noteq> []"
    using js_inj [of "''owner123''" "''Owner@123''"] by (simp_all add: js_def)
  have w: "isWellFormed (js ''0a1b'' @ js ''owner123'')" "isWellFormed (js ''0a1b'' @ js ''Owner@123'')"
    unfolding js_simps(3) [symmetric] by (rule wellFormed_js)+
  from verifyPassword_hashPassword [where salt = "js ''0a1b''" and ?sha256.0 = plainDigest
      and ?rnd2.0 = saltBytesB and password = "js ''Owner@123''" and ?rnd1.0 = saltBytesA
      and p' = "js ''owner123''"] i n w
  show ?thesis by blast
qed

text \<open>
  With a falsy salt both \<open>hashPassword\<close> and \<open>verifyPassword\<close> draw a random salt of their
  own, and the comparison is between digests over two different salts.
\<close>

lemma verifyPassword_unsalted:
  "\<not> truthy salt \<Longrightarrow>
   verifyPassword sha256 rnd2 p (hr_hash (hashPassword sha256 rnd1 password salt)) salt
   \<longleftrightarrow> sha256 (textEncode (js (generateSalt rnd2) @ p)) =
       sha256 (textEncode (js (generateSalt rnd1) @ password))"
  using bytesToHex_inj [of "sha256 (textEncode (js (generateSalt rnd2) @ p))"
      "sha256 (textEncode (js (generateSalt rnd1) @ password))"]
  by (auto simp: verifyPassword_def hashPassword_unsalted)

lemma generateSalt_AB:
  "generateSalt saltBytesA = ''0102030405060708090a0b0c0d0e0f10''"
  "generateSalt saltBytesB = ''100f0e0d0c0b0a090807060504030201''"
  by (simp_all add: generateSalt_def saltBytesA_def saltBytesB_def bytesToHex_Cons hexByte
      hexDigit_def bytesToHex_def)

lemma verifyPassword_salted:
  "salt \<noteq> [] \<Longrightarrow>
   verifyPassword sha256 rnd p (bytesToHex (sha256 (textEncode (salt @ password)))) (Some salt)
   \<longleftrightarrow> sha256 (textEncode (salt @ p)) = sha256 (textEncode (salt @ password))"
  using bytesToHex_inj [of "sha256 (textEncode (salt @ p))" "sha256 (textEncode (salt @ password))"]
  by (auto simp: verifyPassword_def hashPassword_salted)

lemma lone_surrogates_encode_alike:
  "textEncode (js ''0a1b'' @ js ''a'' @ [0xD801]) = textEncode (js ''0a1b'' @ js ''a'' @ [0xD800])"
  by (simp add: textEncode_eq_iff js_def isHighSurrogate_def isLowSurrogate_def)

text \<open>
  The claim as first stated covers every salt and every other password. With the empty
  string as the salt, and two different draws of the random source, the right password
  is rejected. With the salt \<open>0a1b\<close>, the password \<open>a\<close> followed by the lone surrogate
  D800 and the candidate \<open>a\<close> followed by the lone surrogate D801 are different strings
  with the same encoded bytes, and the candidate is accepted although the digest has no
  collision.
\<close>

theorem verifyPassword_empty_salt_counterexample:
  "\<not> verifyPassword plainDigest saltBytesB (js ''Owner@123'')
       (hr_hash (hashPassword plainDigest saltBytesA (js ''Owner@123'') (Some []))) (Some []) \<and>
   js ''a'' @ [0xD801] \<noteq> js ''a'' @ [0xD800] \<and>
   verifyPassword plainDigest saltBytesB (js ''a'' @ [0xD801])
     (hr_hash (hashPassword plainDigest saltBytesA (js ''a'' @ [0xD800]) (Some (js ''0a1b''))))
     (Some (js ''0a1b''))"
proof -
  have "generateSalt saltBytesB @ ''Owner@123'' \<noteq> generateSalt saltBytesA @ ''Owner@123''"
    by (simp add: generateSalt_AB)
  then have "textEncode (js (generateSalt saltBytesB @ ''Owner@123'')) \<noteq>
        textEncode (js (generateSalt saltBytesA @ ''Owner@123''))"
    by (simp only: textEncode_js_eq not_False_eq_True)
  then have a: "\<not> verifyPassword plainDigest saltBytesB (js ''Owner@123'')
       (hr_hash (hashPassword plainDigest saltBytesA (js ''Owner@123'') (Some []))) (Some [])"
    by (simp add: verifyPassword_unsalted plainDigest_def js_simps(3))
  have b: "js ''a'' @ [0xD801] \<noteq> js ''a'' @ [0xD800 :: 16 word]"
    by simp
  have s: "js ''0a1b'' \<noteq> []" by (simp add: js_def)
  have c: "verifyPassword plainDigest saltBytesB (js ''a'' @ [0xD801])
     (hr_hash (hashPassword plainDigest saltBytesA (js ''a'' @ [0xD800]) (Some (js ''0a1b''))))
     (Some (js ''0a1b''))"
    using s lone_surrogates_encode_alike
    by (simp add: hashPassword_salted verifyPassword_salted)
  from a b c show ?thesis by simp
qed

section \<open>The credential migration\<close>

lemma migrateUser_changed:
  "snd (migrateUser sha256 r u) \<longleftrightarrow> truthy (usr_password u) \<and> \<not> truthy (usr_passwordHash u)"
  by (cases "usr_password u") (simp_all add: migrateUser_def Let_def)

lemma migrateUser_skip:
  "\<not> (truthy (usr_password u) \<and> \<not> truthy (usr_passwordHash u)) \<Longrightarrow>
   migrateUser sha256 r u = (u, False)"
  by (cases "usr_password u") (auto simp: migrateUser_def Let_def)

lemma migrateUser_unchanged:
  "\<not> snd (migrateUser sha256 r u) \<Longrightarrow> fst (migrateUser sha256 r u) = u"
  using migrateUser_skip [of u sha256 r] by (simp add: migrateUser_changed)

lemma migrateUser_rewritten:
  "usr_password u = Some pw \<Longrightarrow> pw \<noteq> [] \<Longrightarrow> \<not> truthy (usr_passwordHash u) \<Longrightarrow>
   fst (migrateUser sha256 r u) =
     u\<lparr>usr_passwordHash :=
         Some (hr_hash (hashPassword sha256 r
           (if pw \<in> set [js ''owner123'', js ''staff123'', js ''admin'', js ''password'', js ''1234'']
            then (if usr_role u = ''owner'' then js ''Owner@123'' else js ''Staff@123'') else pw) None)),
       usr_salt := Some (js (generateSalt r)),
       usr_password := None\<rparr>"
  by (simp add: migrateUser_def Let_def defaultWeakPasswords_def hashPassword_def)

lemma migrateUser_settled:
  "\<not> truthy (usr_password (fst (migrateUser sha256 r u))) \<or>
   truthy (usr_passwordHash (fst (migrateUser sha256 r u)))"
  by (cases "usr_password u") (auto simp: migrateUser_def Let_def)

lemma migrateUser_again:
  "migrateUser sha256 r2 (fst (migrateUser sha256 r u)) = (fst (migrateUser sha256 r u), False)"
proof -
  let ?v = "fst (migrateUser sha256 r u)"
  from migrateUser_settled [of sha256 r u] have "\<not> snd (migrateUser sha256 r2 ?v)"
    by (simp add: migrateUser_changed)
  then show ?thesis
    using migrateUser_unchanged [of sha256 r2 ?v] by (simp add: prod_eq_iff)
qed

lemma migrateLoop_length: "length (fst (migrateLoop sha256 rnd i us m)) = length us"
  by (induction us arbitrary: i m) (simp_all add: split_beta Let_def)

lemma migrateLoop_nth:
  "k < length us \<Longrightarrow>
   fst (migrateLoop sha256 rnd i us m) ! k = fst (migrateUser sha256 (rnd (i + k)) (us ! k))"
proof (induction us arbitrary: i m k)
  case Nil
  then show ?case by simp
next
  case (Cons u us)
  show ?case
  proof (cases k)
    case 0
    then show ?thesis by (simp add: split_beta Let_def)
  next
    case (Suc k')
    with Cons.prems have "k' < length us" by simp
    from Cons.IH [OF this, of "Suc i"] Suc show ?thesis by (simp add: split_beta Let_def)
  qed
qed

lemma migrateLoop_flag:
  "snd (migrateLoop sha256 rnd i us m) \<longleftrightarrow>
     m \<or> (\<exists>u \<in> set us. truthy (usr_password u) \<and> \<not> truthy (usr_passwordHash u))"
proof (induction us arbitrary: i m)
  case Nil
  then show ?case by simp
next
  case (Cons u us)
  then show ?case
    using migrateUser_changed [of sha256 "rnd i" u] by (auto simp: split_beta Let_def)
qed

lemma migrateLoop_settled:
  "u \<in> set (fst (migrateLoop sha256 rnd i us m)) \<Longrightarrow>
   \<not> truthy (usr_password u) \<or> truthy (usr_passwordHash u)"
proof (induction us arbitrary: i m)
  case Nil
  then show ?case by simp
next
  case (Cons v vs)
  then show ?case
    using migrateUser_settled [of sha256 "rnd i" v] by (auto simp: split_beta Let_def)
qed

lemma migrateLoop_fixed:
  "\<forall>u \<in> set us. \<not> truthy (usr_password u) \<or> truthy (usr_passwordHash u) \<Longrightarrow>
   migrateLoop sha256 rnd i us m = (us, m)"
proof (induction us arbitrary: i m)
  case Nil
  then show ?case by simp
next
  case (Cons v vs)
  then have c: "\<not> snd (migrateUser sha256 (rnd i) v)"
    by (auto simp: migrateUser_changed)
  then have "migrateUser sha256 (rnd i) v = (v, False)"
    using migrateUser_unchanged [of sha256 "rnd i" v] by (simp add: prod_eq_iff)
  with Cons show ?case by simp
qed

lemma migratePasswords_users:
  "dbGetList (users_slot (migratePasswords sha256 rnd t1 ua st)) =
     fst (migrateLoop sha256 rnd 0 (dbGetList (users_slot st)) False)"
proof (cases "snd (migrateLoop sha256 rnd 0 (dbGetList (users_slot st)) False)")
  case True
  then show ?thesis by (simp add: migratePasswords_def Let_def split_beta dbGetList_def)
next
  case False
  then have "\<forall>u \<in> set (dbGetList (users_slot st)).
               \<not> truthy (usr_password u) \<or> truthy (usr_passwordHash u)"
    by (auto simp: migrateLoop_flag)
  then have "migrateLoop sha256 rnd 0 (dbGetList (users_slot st)) False =
             (dbGetList (users_slot st), False)"
    by (rule migrateLoop_fixed)
  then show ?thesis by (simp add: migratePasswords_def Let_def)
qed

lemma migratePasswords_again:
  "migratePasswords sha256 rnd2 t2 ua2 (migratePasswords sha256 rnd t1 ua st) =
   migratePasswords sha256 rnd t1 ua st"
proof -
  let ?st1 = "migratePasswords sha256 rnd t1 ua st"
  have "\<forall>u \<in> set (dbGetList (users_slot ?st1)).
          \<not> truthy (usr_password u) \<or> truthy (usr_passwordHash u)"
    unfolding migratePasswords_users using migrateLoop_settled by blast
  then have "migrateLoop sha256 rnd2 0 (dbGetList (users_slot ?st1)) False =
             (dbGetList (users_slot ?st1), False)"
    by (rule migrateLoop_fixed)
  then show ?thesis by (simp add: migratePasswords_def [of sha256 rnd2 t2 ua2 ?st1] Let_def)
qed

text \<open>
  Claim C9. One step of the migration rewrites a record exactly when its plaintext
  password is truthy and its \<open>passwordHash\<close> is not; any other record, in particular one
  holding a hash, is left as it is. A rewritten record carries the hash and salt that
  \<open>hashPassword\<close> makes of its password, or of the strong default of its role when the
  password is one of the known weak ones, and has no plaintext password. The migration
  of the store applies the step to every record in place. A record that went through
  the step is not rewritten by another step, and a second migration, with whatever
  random salts and at whatever time, leaves the state of the first as it is.
\<close>

theorem migratePasswords_idempotent:
  "(snd (migrateUser sha256 r u) \<longleftrightarrow>
      truthy (usr_password u) \<and> \<not> truthy (usr_passwordHash u)) \<and>
   (\<not> snd (migrateUser sha256 r u) \<longrightarrow> fst (migrateUser sha256 r u) = u) \<and>
   (truthy (usr_passwordHash u) \<longrightarrow> migrateUser sha256 r u = (u, False)) \<and>
   (usr_password u = Some pw \<and> pw \<noteq> [] \<and> \<not> truthy (usr_passwordHash u) \<longrightarrow>
      fst (migrateUser sha256 r u) =
        u\<lparr>usr_passwordHash :=
            Some (hr_hash (hashPassword sha256 r
              (if pw \<in> set [js ''owner123'', js ''staff123'', js ''admin'', js ''password'', js ''1234'']
               then (if usr_role u = ''owner'' then js ''Owner@123'' else js ''Staff@123'') else pw) None)),
          usr_salt := Some (js (generateSalt r)),
          usr_password := None\<rparr>) \<and>
   length (dbGetList (users_slot (migratePasswords sha256 rnd t1 ua st))) =
     length (dbGetList (users_slot st)) \<and>
   (k < length (dbGetList (users_slot st)) \<longrightarrow>
      dbGetList (users_slot (migratePasswords sha256 rnd t1 ua st)) ! k =
        fst (migrateUser sha256 (rnd k) (dbGetList (users_slot st) ! k))) \<and>
   migrateUser sha256 r2 (fst (migrateUser sha256 r u)) = (fst (migrateUser sha256 r u), False) \<and>
   migratePasswords sha256 rnd2 t2 ua2 (migratePasswords sha256 rnd t1 ua st) =
     migratePasswords sha256 rnd t1 ua st"
proof -
  have 3: "migrateUser sha256 r u = (u, False)" if "truthy (usr_passwordHash u)"
    using that migrateUser_changed [of sha256 r u] migrateUser_unchanged [of sha256 r u]
    by (simp add: prod_eq_iff)
  have 6: "dbGetList (users_slot (migratePasswords sha256 rnd t1 ua st)) ! k =
        fst (migrateUser sha256 (rnd k) (dbGetList (users_slot st) ! k))"
    if "k < length (dbGetList (users_slot st))"
    using migrateLoop_nth [OF that, of sha256 rnd 0 False] by (simp add: migratePasswords_users)
  have 5: "length (dbGetList (users_slot (migratePasswords sha256 rnd t1 ua st))) =
     length (dbGetList (users_slot st))"
    by (simp add: migratePasswords_users migrateLoop_length)
  from migrateUser_changed [of sha256 r u] migrateUser_unchanged [of sha256 r u] 3
    migrateUser_rewritten [of u pw sha256 r] 5 6 migrateUser_again [of sha256 r2 r u]
    migratePasswords_again [of sha256 rnd2 t2 ua2 rnd t1 ua st]
  show ?thesis by blast
qed


text \<open>
  The legacy owner with the weak default is rewritten to the hash of the strong owner
  default, the user with a hash is skipped, and a second migration of the store changes
  nothing.
\<close>

theorem migratePasswords_idempotent_witness:
  "snd (migrateUser plainDigest saltBytesA legacyOwner) \<and>
   fst (migrateUser plainDigest saltBytesA legacyOwner) =
     legacyOwner\<lparr>usr_passwordHash :=
                   Some (hr_hash (hashPassword plainDigest saltBytesA (js ''Owner@123'') None)),
                 usr_salt := Some (js (generateSalt saltBytesA)),
                 usr_password := None\<rparr> \<and>
   migrateUser plainDigest saltBytesA hashedUser = (hashedUser, False) \<and>
   dbGetList (users_slot (migratePasswords plainDigest (\<lambda>i. saltBytesA)
       ''2024-01-01T00:00:00.000Z'' ''Mozilla/5.0'' legacyApp)) ! 2 = hashedUser \<and>
   migratePasswords plainDigest (\<lambda>i. saltBytesB) ''2024-01-02T00:00:00.000Z'' ''Mozilla/5.0''
     (migratePasswords plainDigest (\<lambda>i. saltBytesA) ''2024-01-01T00:00:00.000Z'' ''Mozilla/5.0''
        legacyApp) =
   migratePasswords plainDigest (\<lambda>i. saltBytesA) ''2024-01-01T00:00:00.000Z'' ''Mozilla/5.0''
     legacyApp"
proof -
  have o: "usr_password legacyOwner = Some (js ''owner123'')" "\<not> truthy (usr_passwordHash legacyOwner)"
    "usr_role legacyOwner = ''owner''" "truthy (usr_password legacyOwner)"
    by (simp_all add: legacyOwner_def js_def)
  have h: "truthy (usr_passwordHash hashedUser)"
    by (simp add: hashedUser_def)
  have u: "dbGetList (users_slot legacyApp) = [legacyOwner, legacyStaff, hashedUser]"
    by (simp add: legacyApp_def dbGetList_def)
  note A = migratePasswords_idempotent [where ?sha256.0 = plainDigest and r = saltBytesA
      and u = legacyOwner and pw = "js ''owner123''" and rnd = "\<lambda>i. saltBytesA"
      and ?t1.0 = "''2024-01-01T00:00:00.000Z''" and ua = "''Mozilla/5.0''" and st = legacyApp
      and k = 2 and ?r2.0 = saltBytesB and ?rnd2.0 = "\<lambda>i. saltBytesB"
      and ?t2.0 = "''2024-01-02T00:00:00.000Z''" and ?ua2.0 = "''Mozilla/5.0''"]
  note B = migratePasswords_idempotent [where ?sha256.0 = plainDigest and r = saltBytesA
      and u = hashedUser and pw = "[]" and rnd = "\<lambda>i. saltBytesA"
      and ?t1.0 = "''2024-01-01T00:00:00.000Z''" and ua = "''Mozilla/5.0''" and st = legacyApp
      and k = 2 and ?r2.0 = saltBytesB and ?rnd2.0 = "\<lambda>i. saltBytesB"
      and ?t2.0 = "''2024-01-02T00:00:00.000Z''" and ?ua2.0 = "''Mozilla/5.0''"]
  have 1: "snd (migrateUser plainDigest saltBytesA legacyOwner)"
    using A o by simp
  have 2: "fst (migrateUser plainDigest saltBytesA legacyOwner) =
     legacyOwner\<lparr>usr_passwordHash :=
                   Some (hr_hash (hashPassword plainDigest saltBytesA (js ''Owner@123'') None)),
                 usr_salt := Some (js (generateSalt saltBytesA)),
                 usr_password := None\<rparr>"
    using A o by simp
  have 3: "migrateUser plainDigest saltBytesA hashedUser = (hashedUser, False)"
    using B h by simp
  have 4: "dbGetList (users_slot (migratePasswords plainDigest (\<lambda>i. saltBytesA)
       ''2024-01-01T00:00:00.000Z'' ''Mozilla/5.0'' legacyApp)) ! 2 = hashedUser"
    using A u 3 by simp
  from 1 2 3 4 A show ?thesis by simp
qed

section \<open>A sixth failure and the sliding window\<close>

lemma getLoginAttempts_record:
  "getLoginAttempts (recordLoginAttempt t u s st) =
     filter (\<lambda>a. t - 15 * 60 * 1000 < att_timestamp a)
       (getLoginAttempts st @ [\<lparr>att_username = u, att_timestamp = t, att_success = s\<rparr>])"
  by (simp add: recordLoginAttempt_def getLoginAttempts_def Let_def ATTEMPT_WINDOW_MS_def)

lemma recentFailures_filter:
  "recentFailures now st =
     filter (\<lambda>a. \<not> att_success a \<and> now - 5 * 60 * 1000 < att_timestamp a) (getLoginAttempts st)"
  by (simp add: recentFailures_def Let_def LOCKOUT_DURATION_MS_def)

lemma recentFailures_record:
  assumes "t \<le> now + 10 * 60 * 1000"
  shows "recentFailures now (recordLoginAttempt t u s st) =
           recentFailures now st @
           (if \<not> s \<and> now - 5 * 60 * 1000 < t
            then [\<lparr>att_username = u, att_timestamp = t, att_success = s\<rparr>] else [])"
proof -
  have "filter (\<lambda>a. \<not> att_success a \<and> now - 5 * 60 * 1000 < att_timestamp a)
          (filter (\<lambda>a. t - 15 * 60 * 1000 < att_timestamp a) xs) =
        filter (\<lambda>a. \<not> att_success a \<and> now - 5 * 60 * 1000 < att_timestamp a) xs"
    for xs :: "login_attempt list"
    unfolding filter_filter using assms by (intro filter_cong) auto
  then show ?thesis
    using assms by (simp add: recentFailures_filter getLoginAttempts_record)
qed

lemma recentFailures_recordFailures:
  "\<forall>c \<in> set cs. fst c \<le> now + 10 * 60 * 1000 \<Longrightarrow>
   recentFailures now (recordFailures cs st) =
     recentFailures now st @ map failureOf (filter (\<lambda>c. now - 5 * 60 * 1000 < fst c) cs)"
proof (induction cs arbitrary: st)
  case Nil
  then show ?case by simp
next
  case (Cons c cs)
  obtain t u where c: "c = (t, u)" by (cases c)
  from Cons.prems have t: "t \<le> now + 10 * 60 * 1000" and
    r: "\<forall>c \<in> set cs. fst c \<le> now + 10 * 60 * 1000"
    by (simp_all add: c)
  show ?case
    unfolding c using Cons.IH [OF r] recentFailures_record [OF t]
    by (simp add: failureOf_def)
qed

lemma unlockTime_le:
  "a \<in> set (recentFailures now st) \<Longrightarrow> unlockTime now st \<le> att_timestamp a + 5 * 60 * 1000"
  using min_list_le [of "att_timestamp a" "map att_timestamp (recentFailures now st)"]
  by (simp add: unlockTime_def oldestInWindow_def LOCKOUT_DURATION_MS_def)

lemma min_list_snoc_ge:
  "x \<in> set xs \<Longrightarrow> x \<le> y \<Longrightarrow> min_list (xs @ [y]) = min_list (xs :: int list)"
proof -
  assume x: "x \<in> set xs" and le: "x \<le> y"
  then have ne: "xs \<noteq> []" by auto
  have "Min (set xs) \<le> x" using x by simp
  with le have "Min (set xs) \<le> y" by simp
  moreover have "Min (insert y (set xs)) = min y (Min (set xs))"
    using ne by (intro Min_insert) auto
  ultimately have "Min (insert y (set xs)) = Min (set xs)"
    by (simp only: min_absorb2)
  with ne show ?thesis by (simp add: min_list_Min)
qed

lemma sorted_hd_le:
  "sorted xs \<Longrightarrow> x \<in> set xs \<Longrightarrow> hd xs \<le> (x :: int)"
  by (cases xs) auto

lemma sorted_le_last:
  "sorted xs \<Longrightarrow> x \<in> set xs \<Longrightarrow> x \<le> (last xs :: int)"
  by (cases xs rule: rev_cases) (auto simp: sorted_append)

text \<open>
  Claim C2, as amended. Let five failed attempts be recorded in time order, the last
  less than 5 minutes after the first. At every clock value from the last of them until
  5 minutes after the first, \<open>isLoginLocked\<close> reports locked. If a sixth failed attempt
  is recorded after them, then at every later clock value that is still less than 5
  minutes after the first failure the login is locked, the unlock time is the one
  reported without the sixth attempt, and it is not later than the first failure's
  timestamp plus 5 minutes.
\<close>

theorem sixth_failure_in_window:
  "length cs = 5 \<and> sorted (map fst cs) \<and> fst (last cs) < fst (hd cs) + 5 * 60 * 1000 \<longrightarrow>
     (fst (last cs) \<le> now \<and> now < fst (hd cs) + 5 * 60 * 1000 \<longrightarrow>
        locked (isLoginLocked now (recordFailures cs st))) \<and>
     (fst (last cs) \<le> t6 \<and> t6 \<le> now \<and> now < fst (hd cs) + 5 * 60 * 1000 \<longrightarrow>
        locked (isLoginLocked now (recordLoginAttempt t6 u6 False (recordFailures cs st))) \<and>
        unlockTime now (recordLoginAttempt t6 u6 False (recordFailures cs st)) =
          unlockTime now (recordFailures cs st) \<and>
        unlockTime now (recordLoginAttempt t6 u6 False (recordFailures cs st))
          \<le> fst (hd cs) + 5 * 60 * 1000)"
proof (intro impI)
  assume A: "length cs = 5 \<and> sorted (map fst cs) \<and> fst (last cs) < fst (hd cs) + 5 * 60 * 1000"
  then have ne: "cs \<noteq> []" and len: "length cs = 5" and so: "sorted (map fst cs)" by auto
  have hd: "fst (hd cs) \<le> fst c" if "c \<in> set cs" for c
    using sorted_hd_le [OF so, of "fst c"] that ne by (simp add: hd_map)
  have la: "fst c \<le> fst (last cs)" if "c \<in> set cs" for c
    using sorted_le_last [OF so, of "fst c"] that ne by (simp add: last_map)
  have rf: "recentFailures now (recordFailures cs st) = recentFailures now st @ map failureOf cs"
    if "fst (last cs) \<le> now" "now < fst (hd cs) + 5 * 60 * 1000" for now
  proof -
    have "\<forall>c \<in> set cs. fst c \<le> now + 10 * 60 * 1000" using la that by fastforce
    moreover have "filter (\<lambda>c. now - 5 * 60 * 1000 < fst c) cs = cs"
      using hd that by (fastforce simp: filter_id_conv)
    ultimately show ?thesis by (simp add: recentFailures_recordFailures)
  qed
  have L: "locked (isLoginLocked now (recordFailures cs st))"
    if "fst (last cs) \<le> now" "now < fst (hd cs) + 5 * 60 * 1000"
    using rf [OF that] len by (simp add: locked_iff)
  have S: "locked (isLoginLocked now (recordLoginAttempt t6 u6 False (recordFailures cs st))) \<and>
        unlockTime now (recordLoginAttempt t6 u6 False (recordFailures cs st)) =
          unlockTime now (recordFailures cs st) \<and>
        unlockTime now (recordLoginAttempt t6 u6 False (recordFailures cs st))
          \<le> fst (hd cs) + 5 * 60 * 1000"
    if t: "fst (last cs) \<le> t6" "t6 \<le> now" "now < fst (hd cs) + 5 * 60 * 1000"
  proof -
    let ?s5 = "recordFailures cs st"
    let ?s6 = "recordLoginAttempt t6 u6 False ?s5"
    let ?f6 = "\<lparr>att_username = u6, att_timestamp = t6, att_success = False\<rparr>"
    from t have n5: "fst (last cs) \<le> now" by simp
    have hl: "fst (hd cs) \<le> fst (last cs)" using hd [of "last cs"] ne by simp
    have r5: "recentFailures now ?s5 = recentFailures now st @ map failureOf cs"
      using rf [OF n5 t(3)] .
    have r6: "recentFailures now ?s6 = recentFailures now ?s5 @ [?f6]"
      using t hl by (simp add: recentFailures_record)
    have l6: "locked (isLoginLocked now ?s6)"
      unfolding locked_iff r6 r5 using len by simp
    have m5: "failureOf (last cs) \<in> set (recentFailures now ?s5)"
      unfolding r5 using ne by simp
    have h5: "failureOf (hd cs) \<in> set (recentFailures now ?s5)"
      unfolding r5 using ne by simp
    have "min_list (map att_timestamp (recentFailures now ?s5) @ [t6]) =
          min_list (map att_timestamp (recentFailures now ?s5))"
      using m5 t(1) by (intro min_list_snoc_ge [of "fst (last cs)"]) (force simp: failureOf_def)+
    then have u: "unlockTime now ?s6 = unlockTime now ?s5"
      by (simp add: unlockTime_def oldestInWindow_def r6)
    have "unlockTime now ?s5 \<le> fst (hd cs) + 5 * 60 * 1000"
      using unlockTime_le [OF h5] by (simp add: failureOf_def)
    with l6 u show ?thesis by simp
  qed
  from L S show "(fst (last cs) \<le> now \<and> now < fst (hd cs) + 5 * 60 * 1000 \<longrightarrow>
        locked (isLoginLocked now (recordFailures cs st))) \<and>
     (fst (last cs) \<le> t6 \<and> t6 \<le> now \<and> now < fst (hd cs) + 5 * 60 * 1000 \<longrightarrow>
        locked (isLoginLocked now (recordLoginAttempt t6 u6 False (recordFailures cs st))) \<and>
        unlockTime now (recordLoginAttempt t6 u6 False (recordFailures cs st)) =
          unlockTime now (recordFailures cs st) \<and>
        unlockTime now (recordLoginAttempt t6 u6 False (recordFailures cs st))
          \<le> fst (hd cs) + 5 * 60 * 1000)"
    by blast
qed


lemma recentFailures_fresh: "recentFailures now freshState = []"
  by (simp add: recentFailures_filter getLoginAttempts_def freshState_def)

lemma recentFailures_fiveRecorded:
  "5000 \<le> now + 10 * 60 * 1000 \<Longrightarrow>
   recentFailures now fiveRecorded =
     map failureOf (filter (\<lambda>c. now - 5 * 60 * 1000 < fst c)
       [(1000, ''owner''), (2000, ''owner''), (3000, ''owner''), (4000, ''owner''),
        (5000, ''owner'')])"
  unfolding fiveRecorded_def
  by (subst recentFailures_recordFailures) (simp_all add: recentFailures_fresh)

text \<open>
  Failures at seconds 1 to 5 and a sixth at second 6: at second 7 the login is locked and
  unlocks no later than second 301.
\<close>

theorem sixth_failure_in_window_witness:
  "locked (isLoginLocked 5000 fiveRecorded) \<and>
   locked (isLoginLocked 7000 (recordLoginAttempt 6000 ''owner'' False fiveRecorded)) \<and>
   unlockTime 7000 (recordLoginAttempt 6000 ''owner'' False fiveRecorded) \<le> 301000"
  using sixth_failure_in_window [of
      "[(1000, ''owner''), (2000, ''owner''), (3000, ''owner''), (4000, ''owner''), (5000, ''owner'')]"
      5000 freshState 6000 "''owner''"]
    sixth_failure_in_window [of
      "[(1000, ''owner''), (2000, ''owner''), (3000, ''owner''), (4000, ''owner''), (5000, ''owner'')]"
      7000 freshState 6000 "''owner''"]
  by (simp add: fiveRecorded_def)

text \<open>
  The claim as first stated bounds the unlock time at every later time by the first
  failure's timestamp plus 5 minutes, here second 301. With the five failures alone the
  login is open again at second 301. With a sixth failure recorded at second 6, the
  failures of seconds 2 to 6 are five failures inside the window at second 301, and the
  login stays locked until second 302.
\<close>

theorem sixth_failure_extends_counterexample:
  "locked (isLoginLocked 5000 fiveRecorded) \<and>
   \<not> locked (isLoginLocked 301000 fiveRecorded) \<and>
   locked (isLoginLocked 301000 (recordLoginAttempt 6000 ''owner'' False fiveRecorded)) \<and>
   unlockTime 301000 (recordLoginAttempt 6000 ''owner'' False fiveRecorded) = 302000 \<and>
   \<not> unlockTime 301000 (recordLoginAttempt 6000 ''owner'' False fiveRecorded)
       \<le> 1000 + 5 * 60 * 1000"
proof -
  have a: "locked (isLoginLocked 5000 fiveRecorded)"
    by (simp add: locked_iff recentFailures_fiveRecorded)
  have b: "\<not> locked (isLoginLocked 301000 fiveRecorded)"
    by (simp add: locked_iff recentFailures_fiveRecorded)
  have r: "recentFailures 301000 (recordLoginAttempt 6000 ''owner'' False fiveRecorded) =
     map failureOf [(2000, ''owner''), (3000, ''owner''), (4000, ''owner''), (5000, ''owner''),
                    (6000, ''owner'')]"
    by (simp add: recentFailures_record recentFailures_fiveRecorded failureOf_def)
  have c: "locked (isLoginLocked 301000 (recordLoginAttempt 6000 ''owner'' False fiveRecorded))"
    by (simp add: locked_iff r)
  have d: "unlockTime 301000 (recordLoginAttempt 6000 ''owner'' False fiveRecorded) = 302000"
    by (simp add: unlockTime_def oldestInWindow_def r failureOf_def LOCKOUT_DURATION_MS_def)
  from a b c d show ?thesis by simp
qed

section \<open>Login while locked out\<close>

lemma login_locked:
  "locked (isLoginLocked now (sec st)) \<Longrightarrow>
   login sha256 now rs rt t ua un pw role st = (False, st)"
  by (simp add: login_def Let_def)

lemma login_wrong:
  "\<not> locked (isLoginLocked now (sec st)) \<Longrightarrow>
   verifiedUser sha256 rs (dbGetList (users_slot st)) un pw role = None \<Longrightarrow>
   login sha256 now rs rt t ua un pw role st =
     (False, st\<lparr>sec := auditLog t ua ''LOGIN_FAILED'' (''Failed login attempt for role: '' @ role)
                         (Some un) (recordLoginAttempt now un False (sec st))\<rparr>)"
  by (simp add: login_def Let_def)

lemma getLoginAttempts_auditLog:
  "getLoginAttempts (auditLog t ua a d u st) = getLoginAttempts st"
  by (cases "audit_slot st") (simp_all add: auditLog_def getLoginAttempts_def Let_def)

lemma recentFailures_auditLog:
  "recentFailures now (auditLog t ua a d u st) = recentFailures now st"
  by (simp add: recentFailures_filter getLoginAttempts_auditLog)

lemma ceilDiv_pos: "0 < a \<Longrightarrow> 1 \<le> ceilDiv a 60000"
proof -
  assume "0 < a"
  then have "(- a) div 60000 < 0" by (simp add: div_neg_pos_less0)
  then show ?thesis by (simp add: ceilDiv_def)
qed

lemma locked_remaining:
  assumes "locked (isLoginLocked now st)"
  shows "\<exists>m. remainingMinutes (isLoginLocked now st) = Some m \<and> 1 \<le> m"
proof -
  from assms have ne: "map att_timestamp (recentFailures now st) \<noteq> []"
    by (auto simp: locked_iff)
  from min_list_mem [OF ne] have "now - 5 * 60 * 1000 < oldestInWindow now st"
    by (auto simp: oldestInWindow_def recentFailures_filter)
  then have "0 < unlockTime now st - now"
    by (simp add: unlockTime_def LOCKOUT_DURATION_MS_def)
  then have "1 \<le> ceilDiv (unlockTime now st - now) 60000" by (rule ceilDiv_pos)
  moreover from assms have "5 \<le> length (recentFailures now st)"
    by (simp add: locked_iff)
  ultimately show ?thesis
    by (simp add: isLoginLocked_def Let_def MAX_LOGIN_ATTEMPTS_def)
qed

lemma wrongCredentials_cong:
  "users_slot st1 = users_slot st \<Longrightarrow> wrongCredentials sha256 st1 c = wrongCredentials sha256 st c"
  by (simp add: wrongCredentials_def)

lemma loginRun_failures:
  "\<forall>c \<in> set cs. wrongCredentials sha256 st c \<Longrightarrow>
   sorted (map lc_now cs) \<Longrightarrow>
   length fs + length cs \<le> 5 \<Longrightarrow>
   \<forall>c \<in> set cs. T \<le> lc_now c \<and> lc_now c < W \<Longrightarrow>
   W \<le> T + 5 * 60 * 1000 \<Longrightarrow>
   \<forall>now. T \<le> now \<and> now < W \<longrightarrow> recentFailures now (sec st) = fs \<Longrightarrow>
   users_slot (loginRun sha256 cs st) = users_slot st \<and>
   (\<forall>now. (\<forall>c \<in> set cs. lc_now c \<le> now) \<and> T \<le> now \<and> now < W \<longrightarrow>
      recentFailures now (sec (loginRun sha256 cs st)) = fs @ map attemptOf cs)"
proof (induction cs arbitrary: st fs T)
  case Nil
  then show ?case by simp
next
  case (Cons c cs)
  let ?t = "lc_now c"
  let ?st1 = "snd (loginCall sha256 c st)"
  from Cons.prems(4) have t: "T \<le> ?t" "?t < W" by simp_all
  from Cons.prems(6) t have "recentFailures ?t (sec st) = fs" by simp
  moreover from Cons.prems(3) have "length fs < 5" by simp
  ultimately have nl: "\<not> locked (isLoginLocked ?t (sec st))" by (simp add: locked_iff)
  from Cons.prems(1) have w: "verifiedUser sha256 (lc_rndSalt c) (dbGetList (users_slot st))
        (lc_username c) (lc_password c) (lc_role c) = None"
    by (simp add: wrongCredentials_def)
  have st1: "?st1 = st\<lparr>sec := auditLog (lc_isoNow c) (lc_userAgent c) ''LOGIN_FAILED''
                 (''Failed login attempt for role: '' @ lc_role c) (Some (lc_username c))
                 (recordLoginAttempt ?t (lc_username c) False (sec st))\<rparr>"
    unfolding loginCall_def using login_wrong [OF nl w] by simp
  have us: "users_slot ?st1 = users_slot st" unfolding st1 by simp
  have inv: "\<forall>now. ?t \<le> now \<and> now < W \<longrightarrow> recentFailures now (sec ?st1) = fs @ [attemptOf c]"
  proof (intro allI impI)
    fix now assume n: "?t \<le> now \<and> now < W"
    with t Cons.prems(5) have "?t \<le> now + 10 * 60 * 1000" "now - 5 * 60 * 1000 < ?t" by simp_all
    then have "recentFailures now (sec ?st1) = recentFailures now (sec st) @ [attemptOf c]"
      unfolding st1 by (simp add: recentFailures_auditLog recentFailures_record attemptOf_def)
    moreover from n t Cons.prems(6) have "recentFailures now (sec st) = fs" by simp
    ultimately show "recentFailures now (sec ?st1) = fs @ [attemptOf c]" by simp
  qed
  have p1: "\<forall>c \<in> set cs. wrongCredentials sha256 ?st1 c"
    using Cons.prems(1) by (simp add: wrongCredentials_cong [OF us])
  have p2: "sorted (map lc_now cs)" using Cons.prems(2) by simp
  have p3: "length (fs @ [attemptOf c]) + length cs \<le> 5" using Cons.prems(3) by simp
  have p4: "\<forall>d \<in> set cs. ?t \<le> lc_now d \<and> lc_now d < W"
    using Cons.prems(2,4) by simp
  have p5: "W \<le> ?t + 5 * 60 * 1000" using Cons.prems(5) t by simp
  from Cons.IH [OF p1 p2 p3 p4 p5 inv] us t show ?case by auto
qed

text \<open>
  Claim C7, as amended. Whenever \<open>isLoginLocked\<close> reports locked, \<open>login\<close> returns failure for any
  user name, password and role, the right password included, and leaves the whole state
  as it is: no attempt is recorded and no session is created. In the scenario, five
  logins with wrong credentials are made in time order within 2 minutes, on a state
  whose log has no failed attempt from the 5 minutes before the first of them. Then at
  every clock value from the fifth login until 5 minutes after the first, the login is
  locked, \<open>remainingMinutes\<close> is at least 1, and a sixth login is rejected whatever its
  password, again without any change of state.
\<close>

theorem login_rejected_while_locked:
  "(locked (isLoginLocked now (sec st)) \<longrightarrow>
      login sha256 now rs rt t ua un pw role st = (False, st)) \<and>
   (length cs = 5 \<and> sorted (map lc_now cs) \<and>
    lc_now (last cs) \<le> lc_now (hd cs) + 2 * 60 * 1000 \<and>
    (\<forall>c \<in> set cs. wrongCredentials sha256 st c) \<and>
    (\<forall>a \<in> set (getLoginAttempts (sec st)).
        att_success a \<or> att_timestamp a \<le> lc_now (hd cs) - 5 * 60 * 1000) \<and>
    lc_now (last cs) \<le> now \<and> now < lc_now (hd cs) + 5 * 60 * 1000 \<longrightarrow>
      locked (isLoginLocked now (sec (loginRun sha256 cs st))) \<and>
      (\<exists>m. remainingMinutes (isLoginLocked now (sec (loginRun sha256 cs st))) = Some m \<and> 1 \<le> m) \<and>
      login sha256 now rs rt t ua un pw role (loginRun sha256 cs st) =
        (False, loginRun sha256 cs st))"
proof (intro conjI impI)
  assume "locked (isLoginLocked now (sec st))"
  then show "login sha256 now rs rt t ua un pw role st = (False, st)" by (rule login_locked)
next
  assume A: "length cs = 5 \<and> sorted (map lc_now cs) \<and>
    lc_now (last cs) \<le> lc_now (hd cs) + 2 * 60 * 1000 \<and>
    (\<forall>c \<in> set cs. wrongCredentials sha256 st c) \<and>
    (\<forall>a \<in> set (getLoginAttempts (sec st)).
        att_success a \<or> att_timestamp a \<le> lc_now (hd cs) - 5 * 60 * 1000) \<and>
    lc_now (last cs) \<le> now \<and> now < lc_now (hd cs) + 5 * 60 * 1000"
  then have len: "length cs = 5" and so: "sorted (map lc_now cs)" and ne: "cs \<noteq> []" by auto
  let ?T = "lc_now (hd cs)"
  let ?W = "?T + 5 * 60 * 1000"
  have hd: "?T \<le> lc_now c" if "c \<in> set cs" for c
    using sorted_hd_le [OF so, of "lc_now c"] that ne by (simp add: hd_map)
  have la: "lc_now c \<le> lc_now (last cs)" if "c \<in> set cs" for c
    using sorted_le_last [OF so, of "lc_now c"] that ne by (simp add: last_map)
  have p4: "\<forall>c \<in> set cs. ?T \<le> lc_now c \<and> lc_now c < ?W"
    using hd la A by fastforce
  have inv: "\<forall>n. ?T \<le> n \<and> n < ?W \<longrightarrow> recentFailures n (sec st) = []"
    using A by (fastforce simp: recentFailures_filter filter_empty_conv)
  from A have p1: "\<forall>c \<in> set cs. wrongCredentials sha256 st c" by simp
  have p3: "length ([] :: login_attempt list) + length cs \<le> 5" using len by simp
  from loginRun_failures [OF p1 so p3 p4 _ inv]
  have "\<forall>n. (\<forall>c \<in> set cs. lc_now c \<le> n) \<and> ?T \<le> n \<and> n < ?W \<longrightarrow>
      recentFailures n (sec (loginRun sha256 cs st)) = [] @ map attemptOf cs"
    by simp
  moreover have "(\<forall>c \<in> set cs. lc_now c \<le> now) \<and> ?T \<le> now \<and> now < ?W"
    using la hd [of "last cs"] ne A by fastforce
  ultimately have "recentFailures now (sec (loginRun sha256 cs st)) = map attemptOf cs"
    by simp
  then show L: "locked (isLoginLocked now (sec (loginRun sha256 cs st)))"
    using len by (simp add: locked_iff)
  from L show "\<exists>m. remainingMinutes (isLoginLocked now (sec (loginRun sha256 cs st))) = Some m \<and> 1 \<le> m"
    by (rule locked_remaining)
  from L show "login sha256 now rs rt t ua un pw role (loginRun sha256 cs st) =
        (False, loginRun sha256 cs st)"
    by (rule login_locked)
qed


lemma hashedOwner_fields:
  "usr_username hashedOwner = ''owner''" "usr_role hashedOwner = ''owner''"
  "usr_passwordHash hashedOwner =
     Some (bytesToHex (plainDigest (textEncode (js (generateSalt saltBytesA) @ js ''Owner@123''))))"
  "usr_salt hashedOwner = Some (js (generateSalt saltBytesA))"
  by (simp_all add: hashedOwner_def hashPassword_def Let_def)

lemma bytesToHex_ne: "bs \<noteq> [] \<Longrightarrow> bytesToHex bs \<noteq> []"
  by (cases bs) (simp_all add: bytesToHex_Cons hexByte)

lemma textEncode_ne: "s \<noteq> [] \<Longrightarrow> textEncode s \<noteq> []"
  using codePoints_Nil [of s] utf8_ne by (cases "codePoints s") (auto simp: textEncode_def)

lemma hashedOwner_verifies:
  "verifiedUser plainDigest rs [hashedOwner] ''owner'' (js pw) ''owner'' =
     (if pw = ''Owner@123'' then Some hashedOwner else None)"
proof -
  have s: "js (generateSalt saltBytesA) \<noteq> []" by (simp add: generateSalt_AB js_def)
  have h: "bytesToHex (plainDigest (textEncode (js (generateSalt saltBytesA) @ js ''Owner@123'')))
             \<noteq> []"
    unfolding plainDigest_def using s by (intro bytesToHex_ne textEncode_ne) simp
  have "textEncode (js (generateSalt saltBytesA @ pw)) =
        textEncode (js (generateSalt saltBytesA @ ''Owner@123'')) \<longleftrightarrow> pw = ''Owner@123''"
    unfolding textEncode_js_eq by simp
  then have v: "verifyPassword plainDigest rs (js pw)
             (bytesToHex (plainDigest (textEncode (js (generateSalt saltBytesA) @ js ''Owner@123''))))
             (Some (js (generateSalt saltBytesA))) \<longleftrightarrow> pw = ''Owner@123''"
    using s verifyPassword_salted [of "js (generateSalt saltBytesA)" plainDigest rs "js pw"
        "js ''Owner@123''"]
    by (simp add: plainDigest_def js_simps(3))
  show ?thesis
    using h v by (simp add: verifiedUser_def hashedOwner_fields)
qed

lemma wrong_ownerLogin: "wrongCredentials plainDigest shopApp (ownerLogin t (js ''owner123''))"
  by (simp add: wrongCredentials_def shopApp_def dbGetList_def ownerLogin_def hashedOwner_verifies)

text \<open>
  The owner's password is \<open>Owner@123\<close>. After five logins with \<open>owner123\<close> between
  second 0 and second 110, the login with the right password at second 115 is rejected.
\<close>

theorem login_rejected_while_locked_witness:
  "verifiedUser plainDigest saltBytesB [hashedOwner] ''owner'' (js ''Owner@123'') ''owner''
     = Some hashedOwner \<and>
   locked (isLoginLocked 115000 (sec (loginRun plainDigest fiveWrongLogins shopApp))) \<and>
   login plainDigest 115000 saltBytesB (replicate 32 171) ''2024-01-01T00:00:00.000Z''
     ''Mozilla/5.0'' ''owner'' (js ''Owner@123'') ''owner''
     (loginRun plainDigest fiveWrongLogins shopApp)
     = (False, loginRun plainDigest fiveWrongLogins shopApp)"
proof -
  have a: "verifiedUser plainDigest saltBytesB [hashedOwner] ''owner'' (js ''Owner@123'') ''owner''
     = Some hashedOwner"
    by (simp add: hashedOwner_verifies)
  have w: "\<forall>c \<in> set fiveWrongLogins. wrongCredentials plainDigest shopApp c"
    by (simp add: fiveWrongLogins_def wrong_ownerLogin)
  have f: "getLoginAttempts (sec shopApp) = []"
    by (simp add: shopApp_def freshState_def getLoginAttempts_def)
  have c: "length fiveWrongLogins = 5" "sorted (map lc_now fiveWrongLogins)"
    "lc_now (last fiveWrongLogins) = 110000" "lc_now (hd fiveWrongLogins) = 0"
    by (simp_all add: fiveWrongLogins_def ownerLogin_def)
  from login_rejected_while_locked [where cs = fiveWrongLogins and ?sha256.0 = plainDigest
      and st = shopApp and now = 115000 and rs = saltBytesB and rt = "replicate 32 171"
      and t = "''2024-01-01T00:00:00.000Z''" and ua = "''Mozilla/5.0''" and un = "''owner''"
      and pw = "js ''Owner@123''" and role = "''owner''"] w f c a
  show ?thesis by simp
qed

lemma loginCall_refused:
  "locked (isLoginLocked (lc_now c) (sec st)) \<Longrightarrow> snd (loginCall sha256 c st) = st"
  by (simp add: loginCall_def login_locked)

lemma loginCall_recorded:
  assumes "wrongCredentials sha256 st c" "\<not> locked (isLoginLocked (lc_now c) (sec st))"
  shows "users_slot (snd (loginCall sha256 c st)) = users_slot st"
    and "lc_now c \<le> n + 10 * 60 * 1000 \<Longrightarrow>
         recentFailures n (sec (snd (loginCall sha256 c st))) =
           recentFailures n (sec st) @ (if n - 5 * 60 * 1000 < lc_now c then [attemptOf c] else [])"
proof -
  from assms have st1: "snd (loginCall sha256 c st) =
      st\<lparr>sec := auditLog (lc_isoNow c) (lc_userAgent c) ''LOGIN_FAILED''
                 (''Failed login attempt for role: '' @ lc_role c) (Some (lc_username c))
                 (recordLoginAttempt (lc_now c) (lc_username c) False (sec st))\<rparr>"
    unfolding loginCall_def wrongCredentials_def by (simp add: login_wrong)
  show "users_slot (snd (loginCall sha256 c st)) = users_slot st"
    unfolding st1 by simp
  show "recentFailures n (sec (snd (loginCall sha256 c st))) =
           recentFailures n (sec st) @ (if n - 5 * 60 * 1000 < lc_now c then [attemptOf c] else [])"
    if "lc_now c \<le> n + 10 * 60 * 1000"
    unfolding st1 using that
    by (simp add: recentFailures_auditLog recentFailures_record attemptOf_def)
qed

lemma staleApp_facts:
  "users_slot staleApp = Stored [hashedOwner]"
  "recentFailures n (sec staleApp) =
     filter (\<lambda>a. n - 5 * 60 * 1000 < att_timestamp a)
       [failedAt 1000, failedAt 2000, failedAt 3000, failedAt 4000]"
  by (simp_all add: staleApp_def shopApp_def freshState_def recentFailures_filter
      getLoginAttempts_def failedAt_def)

lemma wrong_ownerLogin_users:
  "users_slot st = Stored [hashedOwner] \<Longrightarrow>
   wrongCredentials plainDigest st (ownerLogin t (js ''owner123''))"
  by (simp add: wrongCredentials_def dbGetList_def ownerLogin_def hashedOwner_verifies)

text \<open>
  The claim as first stated takes any five wrong logins within 2 minutes. In a shop
  whose log holds four failures from seconds 1 to 4, wrong logins follow at seconds 200,
  220, 240, 260 and 310. The first is recorded and locks the login; the next three are
  refused and not recorded; at second 310 the old failures have left the window, and the
  fifth is recorded as the second failure inside it. At second 315 the login is not
  locked, and the login with the right password succeeds.
\<close>

theorem login_after_stale_failures_counterexample:
  "length lateWrongLogins = 5 \<and>
   sorted (map lc_now lateWrongLogins) \<and>
   lc_now (last lateWrongLogins) \<le> lc_now (hd lateWrongLogins) + 2 * 60 * 1000 \<and>
   list_all (wrongCredentials plainDigest staleApp) lateWrongLogins \<and>
   \<not> locked (isLoginLocked 315000 (sec (loginRun plainDigest lateWrongLogins staleApp))) \<and>
   fst (login plainDigest 315000 saltBytesB (replicate 32 171) ''2024-01-01T00:00:00.000Z''
     ''Mozilla/5.0'' ''owner'' (js ''Owner@123'') ''owner''
     (loginRun plainDigest lateWrongLogins staleApp))"
proof -
  let ?c = "\<lambda>t. ownerLogin t (js ''owner123'')"
  define s1 where "s1 = snd (loginCall plainDigest (?c 200000) staleApp)"
  define s5 where "s5 = snd (loginCall plainDigest (?c 310000) s1)"
  have now: "lc_now (?c t) = t" for t by (simp add: ownerLogin_def)
  have w0: "wrongCredentials plainDigest staleApp (?c t)" for t
    by (rule wrong_ownerLogin_users) (rule staleApp_facts)
  have n0: "\<not> locked (isLoginLocked 200000 (sec staleApp))"
    by (simp add: locked_iff staleApp_facts failedAt_def)
  have u1: "users_slot s1 = Stored [hashedOwner]"
    unfolding s1_def using loginCall_recorded(1) [OF w0 [of 200000]] n0
    by (simp add: now staleApp_facts)
  have r1: "recentFailures n s1' = recentFailures n (sec staleApp) @
              (if n - 5 * 60 * 1000 < 200000 then [attemptOf (?c 200000)] else [])"
    if "200000 \<le> n + 10 * 60 * 1000" "s1' = sec s1" for n s1'
    unfolding that(2) s1_def using loginCall_recorded(2) [OF w0 [of 200000], of n] n0 that(1)
    by (simp add: now)
  have l2: "locked (isLoginLocked 220000 (sec s1))"
    by (simp add: locked_iff r1 [OF _ refl] staleApp_facts failedAt_def)
  have l3: "locked (isLoginLocked 240000 (sec s1))"
    by (simp add: locked_iff r1 [OF _ refl] staleApp_facts failedAt_def)
  have l4: "locked (isLoginLocked 260000 (sec s1))"
    by (simp add: locked_iff r1 [OF _ refl] staleApp_facts failedAt_def)
  have n5: "\<not> locked (isLoginLocked 310000 (sec s1))"
    by (simp add: locked_iff r1 [OF _ refl] staleApp_facts failedAt_def)
  have w1: "wrongCredentials plainDigest s1 (?c t)" for t
    using u1 by (rule wrong_ownerLogin_users)
  have run: "loginRun plainDigest lateWrongLogins staleApp = s5"
    unfolding lateWrongLogins_def s5_def
    using l2 l3 l4 by (simp add: s1_def [symmetric] loginCall_refused now)
  have u5: "users_slot s5 = Stored [hashedOwner]"
    unfolding s5_def using loginCall_recorded(1) [OF w1 [of 310000]] n5 u1
    by (simp add: now)
  have r5: "recentFailures 315000 (sec s5) = [attemptOf (?c 200000), attemptOf (?c 310000)]"
    unfolding s5_def using loginCall_recorded(2) [OF w1 [of 310000], of 315000] n5
    by (simp add: now r1 [OF _ refl] staleApp_facts failedAt_def)
  have a: "\<not> locked (isLoginLocked 315000 (sec s5))"
    by (simp add: locked_iff r5)
  have b: "fst (login plainDigest 315000 saltBytesB (replicate 32 171) ''2024-01-01T00:00:00.000Z''
     ''Mozilla/5.0'' ''owner'' (js ''Owner@123'') ''owner'' s5)"
    using a by (simp add: login_def Let_def u5 dbGetList_def hashedOwner_verifies)
  have c: "list_all (wrongCredentials plainDigest staleApp) lateWrongLogins"
    by (simp add: lateWrongLogins_def w0)
  have d: "length lateWrongLogins = 5" "sorted (map lc_now lateWrongLogins)"
    "lc_now (last lateWrongLogins) \<le> lc_now (hd lateWrongLogins) + 2 * 60 * 1000"
    by (simp_all add: lateWrongLogins_def now)
  from a b c d show ?thesis unfolding run by simp
qed

section \<open>Encrypting and decrypting a backup\<close>

















end
